theory Spec2Isabelle
  imports Main "HOL-Library.Word" "HOL-Library.AList"
begin

unbundle bit_operations_syntax

section \<open>Tokens and errors\<close>

text \<open>
  A token of \<^verbatim>\<open>script.js\<close> is an object with a \<^verbatim>\<open>type\<close> field
  (\<^verbatim>\<open>'NUM'\<close>, \<^verbatim>\<open>'VAR'\<close>, \<^verbatim>\<open>'OP'\<close>, \<^verbatim>\<open>'LP'\<close>, \<^verbatim>\<open>'RP'\<close>). An operator token
  carries the fields \<^verbatim>\<open>value\<close>, \<^verbatim>\<open>unary\<close>, \<^verbatim>\<open>postfix\<close>, \<^verbatim>\<open>precedence\<close>,
  \<^verbatim>\<open>associativity\<close> and \<^verbatim>\<open>implicit\<close>; a field the object literal leaves out is
  \<^verbatim>\<open>undefined\<close> and is only ever tested for truth, so it is \<open>False\<close> here.
  Strings of the source stay strings; a character is a code unit below 256.
\<close>

record optok =
  "value" :: string
  unary :: bool
  postfix :: bool
  precedence :: nat
  associativity :: string
  implicit :: bool

datatype token = NUM nat | VAR string | OP optok | LP | RP

text \<open>
  Every \<^verbatim>\<open>throw new Error(...)\<close> of the source is one constructor; the arguments are
  the values the message interpolates.
\<close>

datatype error =
    LexError nat char
  | UnmatchedParen
  | UnbalancedParen
  | UndefinedVariable string
  | InsufficientOperands string
  | UnknownOperator string
  | InvalidExpression

section \<open>Tokenizer\<close>

definition is_space :: "char \<Rightarrow> bool" where
  "is_space c = (of_char c \<in> {9, 10, 11, 12, 13, 32, 160 :: nat})"

definition strip_ws :: "string \<Rightarrow> string" where
  "strip_ws raw = filter (\<lambda>c. \<not> is_space c) raw"

definition is_letter :: "char \<Rightarrow> bool" where
  "is_letter c = (let n = (of_char c :: nat) in (65 \<le> n \<and> n \<le> 90) \<or> (97 \<le> n \<and> n \<le> 122))"

definition toUpperCase :: "char \<Rightarrow> char" where
  "toUpperCase c = (let n = (of_char c :: nat) in if 97 \<le> n \<and> n \<le> 122 then char_of (n - 32) else c)"

definition apostrophe :: char where
  "apostrophe = CHR 0x27"

text \<open>
  The value of a \<^verbatim>\<open>VAR\<close> token is \<^verbatim>\<open>ch.toUpperCase()\<close> of a letter, a string of one
  upper-case letter. These are the names the rest of the program uses for variables.
\<close>

definition upperLetter :: "char \<Rightarrow> bool" where
  "upperLetter c = (65 \<le> (of_char c :: nat) \<and> (of_char c :: nat) \<le> 90)"

definition postfixNOT :: token where
  "postfixNOT = OP \<lparr>value = ''NOT'', unary = True, postfix = True, precedence = 4,
                    associativity = ''right'', implicit = False\<rparr>"

definition prefixNOT :: token where
  "prefixNOT = OP \<lparr>value = ''NOT'', unary = True, postfix = False, precedence = 4,
                   associativity = ''right'', implicit = False\<rparr>"

definition binaryOp :: "char \<Rightarrow> token" where
  "binaryOp ch =
     (let op = (if ch = CHR ''&'' \<or> ch = CHR ''*'' then ''AND''
                else if ch = CHR ''+'' \<or> ch = CHR ''|'' then ''OR''
                else ''XOR'');
          prec = (if op = ''OR'' then 1 else if op = ''XOR'' then 2 else 3)
      in OP \<lparr>value = op, unary = False, postfix = False, precedence = prec,
              associativity = ''left'', implicit = False\<rparr>)"

text \<open>\<^verbatim>\<open>tokens.push(t)\<close> followed by the rest of the scan; a throw discards the tokens.\<close>

definition push_tok :: "token \<Rightarrow> error + token list \<Rightarrow> error + token list" where
  "push_tok t r = (case r of Inl e \<Rightarrow> Inl e | Inr ts \<Rightarrow> Inr (t # ts))"

text \<open>
  The \<^verbatim>\<open>while (i < src.length)\<close> loop: \<open>i\<close> is the index of the next character and the
  second argument is \<^verbatim>\<open>src\<close> from that index on.
\<close>

function tokenize_from :: "nat \<Rightarrow> string \<Rightarrow> error + token list" where
  "tokenize_from i [] = Inr []"
| "tokenize_from i (ch # cs) =
     (if ch = CHR ''0'' \<or> ch = CHR ''1'' then
        push_tok (NUM (if ch = CHR ''1'' then 1 else 0)) (tokenize_from (i + 1) cs)
      else if is_letter ch then
        (let negCount = length (takeWhile (\<lambda>c. c = apostrophe) cs);
             rest = dropWhile (\<lambda>c. c = apostrophe) cs
         in push_tok (VAR [toUpperCase ch])
              (if negCount mod 2 = 1
               then push_tok postfixNOT (tokenize_from (i + 1 + negCount) rest)
               else tokenize_from (i + 1 + negCount) rest))
      else if ch = CHR ''('' then push_tok LP (tokenize_from (i + 1) cs)
      else if ch = CHR '')'' then push_tok RP (tokenize_from (i + 1) cs)
      else if ch = CHR ''!'' \<or> ch = CHR ''~'' then push_tok prefixNOT (tokenize_from (i + 1) cs)
      else if ch \<in> set ''&*+|^'' then push_tok (binaryOp ch) (tokenize_from (i + 1) cs)
      else Inl (LexError i ch))"
  by pat_completeness auto
termination
  by (relation "measure (\<lambda>(i, s). length s)")
     (auto simp: length_dropWhile_le less_Suc_eq_le)

definition tokenize :: "string \<Rightarrow> error + token list" where
  "tokenize raw = tokenize_from 0 (strip_ws raw)"

section \<open>Parser (shunting-yard with implicit AND)\<close>

text \<open>The argument is \<open>None\<close> for \<^verbatim>\<open>undefined\<close> (\<^verbatim>\<open>tokens[i + 1]\<close> past the end).\<close>

fun isOperand :: "token option \<Rightarrow> bool" where
  "isOperand None = False"
| "isOperand (Some (VAR v)) = True"
| "isOperand (Some (NUM n)) = True"
| "isOperand (Some RP) = True"
| "isOperand (Some (OP t)) = postfix t"
| "isOperand (Some LP) = False"

fun beginsOperand :: "token option \<Rightarrow> bool" where
  "beginsOperand None = False"
| "beginsOperand (Some (VAR v)) = True"
| "beginsOperand (Some (NUM n)) = True"
| "beginsOperand (Some LP) = True"
| "beginsOperand (Some (OP t)) = (value t = ''NOT'' \<and> \<not> postfix t)"
| "beginsOperand (Some RP) = False"

definition implicitAND :: token where
  "implicitAND = OP \<lparr>value = ''AND'', unary = False, postfix = False, precedence = 3,
                     associativity = ''left'', implicit = True\<rparr>"

text \<open>Phase 1: \<^verbatim>\<open>withImplicit\<close>.\<close>

fun insertImplicit :: "token list \<Rightarrow> token list" where
  "insertImplicit [] = []"
| "insertImplicit (a # rest) =
     a # (if isOperand (Some a) \<and> beginsOperand (case rest of [] \<Rightarrow> None | b # _ \<Rightarrow> Some b)
          then [implicitAND] else [])
       @ insertImplicit rest"

text \<open>
  Phase 2. The operator stack has its top at the head; \<open>output\<close> grows at its end.
  \<open>popOps\<close> is the inner \<^verbatim>\<open>while (stack.length)\<close> loop of the binary-operator branch.
\<close>

fun popOps :: "optok \<Rightarrow> token list \<Rightarrow> token list \<Rightarrow> token list \<times> token list" where
  "popOps t output [] = (output, [])"
| "popOps t output (OP tp # stack) =
     (if precedence tp > precedence t \<or>
         (precedence tp = precedence t \<and> associativity t = ''left'')
      then popOps t (output @ [OP tp]) stack
      else (output, OP tp # stack))"
| "popOps t output (tp # stack) = (output, tp # stack)"

text \<open>The \<^verbatim>\<open>while\<close> loop of the right-parenthesis branch, up to the \<^verbatim>\<open>LP\<close>.\<close>

fun popToLP :: "token list \<Rightarrow> token list \<Rightarrow> token list \<times> token list" where
  "popToLP output [] = (output, [])"
| "popToLP output (LP # stack) = (output, LP # stack)"
| "popToLP output (tp # stack) = popToLP (output @ [tp]) stack"

text \<open>The final \<^verbatim>\<open>while (stack.length)\<close> loop.\<close>

fun drainStack :: "token list \<Rightarrow> token list \<Rightarrow> error + token list" where
  "drainStack output [] = Inr output"
| "drainStack output (LP # stack) = Inl UnbalancedParen"
| "drainStack output (RP # stack) = Inl UnbalancedParen"
| "drainStack output (s # stack) = drainStack (output @ [s]) stack"

fun shunt :: "token list \<Rightarrow> token list \<Rightarrow> token list \<Rightarrow> error + token list" where
  "shunt [] output stack = drainStack output stack"
| "shunt (VAR v # ts) output stack = shunt ts (output @ [VAR v]) stack"
| "shunt (NUM n # ts) output stack = shunt ts (output @ [NUM n]) stack"
| "shunt (OP t # ts) output stack =
     (if postfix t \<and> value t = ''NOT'' then shunt ts (output @ [OP t]) stack
      else if unary t \<and> \<not> postfix t then shunt ts output (OP t # stack)
      else if \<not> unary t then
        (case popOps t output stack of (output', stack') \<Rightarrow> shunt ts output' (OP t # stack'))
      else shunt ts output stack)"
| "shunt (LP # ts) output stack = shunt ts output (LP # stack)"
| "shunt (RP # ts) output stack =
     (case popToLP output stack of
        (output', []) \<Rightarrow> Inl UnmatchedParen
      | (output', _ # stack') \<Rightarrow> shunt ts output' stack')"

definition toRPN :: "token list \<Rightarrow> error + token list" where
  "toRPN tokens = shunt (insertImplicit tokens) [] []"

section \<open>RPN evaluator\<close>

type_synonym env = "string \<rightharpoonup> int"

text \<open>
  One iteration of \<^verbatim>\<open>for (const token of rpn)\<close>; the value stack has its top at the
  head. A token that is neither \<^verbatim>\<open>NUM\<close>, \<^verbatim>\<open>VAR\<close> nor \<^verbatim>\<open>OP\<close> falls through every branch.

  The environment of the source is a plain object, here the map of its own
  properties. \<^verbatim>\<open>token.value in env\<close> and \<^verbatim>\<open>env[token.value]\<close> are the map's \<open>env v \<noteq> None\<close>
  and \<open>env v\<close> for every name that \<^verbatim>\<open>Object.prototype\<close> does not define; for an inherited
  name (\<^verbatim>\<open>toString\<close>, \<^verbatim>\<open>constructor\<close>, \<^verbatim>\<open>__proto__\<close>, ...) the source finds a value where the
  map has none. The names of \<^verbatim>\<open>VAR\<close> tokens are single letters, none of them inherited,
  and the statements about absent variables below are made for these names.
\<close>

fun evalStep :: "env \<Rightarrow> token \<Rightarrow> bool list \<Rightarrow> error + bool list" where
  "evalStep env (NUM n) stack = Inr ((n \<noteq> 0) # stack)"
| "evalStep env (VAR v) stack =
     (case env v of None \<Rightarrow> Inl (UndefinedVariable v)
      | Some x \<Rightarrow> Inr ((x \<noteq> 0) # stack))"
| "evalStep env (OP t) stack =
     (if value t = ''NOT'' then
        (case stack of [] \<Rightarrow> Inl (InsufficientOperands ''NOT'')
         | a # stack' \<Rightarrow> Inr ((\<not> a) # stack'))
      else
        (case stack of
           b # a # stack' \<Rightarrow>
             (if value t = ''AND'' then Inr ((a \<and> b) # stack')
              else if value t = ''OR'' then Inr ((a \<or> b) # stack')
              else if value t = ''XOR'' then Inr ((a \<noteq> b) # stack')
              else Inl (UnknownOperator (value t)))
         | _ \<Rightarrow> Inl (InsufficientOperands (value t))))"
| "evalStep env LP stack = Inr stack"
| "evalStep env RP stack = Inr stack"

fun evalLoop :: "env \<Rightarrow> token list \<Rightarrow> bool list \<Rightarrow> error + bool list" where
  "evalLoop env [] stack = Inr stack"
| "evalLoop env (token # rpn) stack =
     (case evalStep env token stack of Inl e \<Rightarrow> Inl e
      | Inr stack' \<Rightarrow> evalLoop env rpn stack')"

definition evalRPN :: "token list \<Rightarrow> env \<Rightarrow> error + int" where
  "evalRPN rpn env =
     (case evalLoop env rpn [] of Inl e \<Rightarrow> Inl e
      | Inr stack \<Rightarrow>
          (case stack of [v] \<Rightarrow> Inr (if v then 1 else 0)
           | _ \<Rightarrow> Inl InvalidExpression))"

section \<open>Quine--McCluskey minimizer\<close>

subsection \<open>Bit strings\<close>

text \<open>\<^verbatim>\<open>n.toString(2)\<close> for a non-negative integer and \<^verbatim>\<open>padStart\<close>.\<close>

fun toString2 :: "nat \<Rightarrow> string" where
  "toString2 n =
     (if n < 2 then [if n = 1 then CHR ''1'' else CHR ''0'']
      else toString2 (n div 2) @ [if n mod 2 = 1 then CHR ''1'' else CHR ''0''])"

declare toString2.simps [simp del]

definition padStart :: "string \<Rightarrow> nat \<Rightarrow> char \<Rightarrow> string" where
  "padStart s width c = replicate (width - length s) c @ s"

definition toBin :: "nat \<Rightarrow> nat \<Rightarrow> string" where
  "toBin n width = padStart (toString2 n) width (CHR ''0'')"

definition countOnes :: "string \<Rightarrow> nat" where
  "countOnes binStr = length (filter (\<lambda>c. c = CHR ''1'') binStr)"

text \<open>
  The three loops below run \<^verbatim>\<open>i\<close> over the first string; the second string is kept
  from index \<^verbatim>\<open>i\<close> on, and \<open>charAt0\<close> of it is \<^verbatim>\<open>b[i]\<close>, \<open>None\<close> for \<^verbatim>\<open>undefined\<close>
  past its end.
\<close>

definition charAt0 :: "string \<Rightarrow> char option" where
  "charAt0 s = (case s of [] \<Rightarrow> None | c # _ \<Rightarrow> Some c)"

fun canCombine_from :: "string \<Rightarrow> string \<Rightarrow> nat \<Rightarrow> bool" where
  "canCombine_from [] b diff = (diff = 1)"
| "canCombine_from (x # a) b diff =
     (let diff' = (if Some x \<noteq> charAt0 b then diff + 1 else diff)
      in if diff' > 1 then False else canCombine_from a (tl b) diff')"

definition canCombine :: "string \<Rightarrow> string \<Rightarrow> bool" where
  "canCombine a b = canCombine_from a b 0"

fun combine :: "string \<Rightarrow> string \<Rightarrow> string" where
  "combine [] b = []"
| "combine (x # a) b = (if Some x = charAt0 b then x else CHR ''-'') # combine a (tl b)"

fun covers :: "string \<Rightarrow> string \<Rightarrow> bool" where
  "covers [] mintermBin = True"
| "covers (x # implicant) mintermBin =
     (if x = CHR ''-'' then covers implicant (tl mintermBin)
      else if Some x \<noteq> charAt0 mintermBin then False
      else covers implicant (tl mintermBin))"

subsection \<open>Groups\<close>

text \<open>
  An entry of \<^verbatim>\<open>groups\<close>: the fields \<^verbatim>\<open>bin\<close>, \<^verbatim>\<open>used\<close> and \<^verbatim>\<open>from\<close> (\<open>from'\<close> here,
  \<open>from\<close> being reserved).
\<close>

record item =
  bin :: string
  used :: bool
  from' :: "string list"

text \<open>
  \<^verbatim>\<open>groups\<close> and \<^verbatim>\<open>newGroups\<close> are objects with integer keys. They are association
  lists here; \<^verbatim>\<open>Object.keys(groups).map(Number).sort(...)\<close> and \<^verbatim>\<open>for (const k in groups)\<close>
  both visit the keys in ascending order, each once.
\<close>

type_synonym groups = "(nat \<times> item list) list"

definition group_keys :: "groups \<Rightarrow> nat list" where
  "group_keys gs = sort (remdups (map fst gs))"

definition group_get :: "groups \<Rightarrow> nat \<Rightarrow> item list" where
  "group_get gs k = (case map_of gs k of None \<Rightarrow> [] | Some g \<Rightarrow> g)"

definition group_push :: "groups \<Rightarrow> nat \<Rightarrow> item \<Rightarrow> groups" where
  "group_push gs k it = AList.update k (group_get gs k @ [it]) gs"

text \<open>\<^verbatim>\<open>[...new Set(xs)]\<close>: the first occurrence of each element, in order.\<close>

fun uniq_from :: "'a list \<Rightarrow> 'a list \<Rightarrow> 'a list" where
  "uniq_from seen [] = []"
| "uniq_from seen (x # xs) =
     (if x \<in> set seen then uniq_from seen xs else x # uniq_from (seen @ [x]) xs)"

definition uniq :: "'a list \<Rightarrow> 'a list" where
  "uniq xs = uniq_from [] xs"

text \<open>Phase 1: group the terms by their number of ones.\<close>

definition initGroups :: "string list \<Rightarrow> groups" where
  "initGroups bins =
     fold (\<lambda>b gs. group_push gs (countOnes b) \<lparr>bin = b, used = False, from' = [b]\<rparr>) bins []"

text \<open>
  The body of \<^verbatim>\<open>for (const a of g1) for (const b of g2)\<close> for one pair of adjacent
  groups. The new item reads only \<^verbatim>\<open>bin\<close> and \<^verbatim>\<open>from\<close> of its parents, so the items
  pushed are those of \<open>combineInto\<close>, in the order of the nested loops, and a parent's
  \<^verbatim>\<open>used\<close> flag ends up set exactly when it combined with some item of the other group.
\<close>

definition newItem :: "item \<Rightarrow> item \<Rightarrow> item" where
  "newItem a b = \<lparr>bin = combine (bin a) (bin b), used = False,
                  from' = uniq (from' a @ from' b)\<rparr>"

definition pushCombined :: "item \<Rightarrow> item \<Rightarrow> groups \<Rightarrow> groups" where
  "pushCombined a b newGroups =
     (if canCombine (bin a) (bin b)
      then (let c = combine (bin a) (bin b);
                ones = countOnes (filter (\<lambda>ch. ch \<noteq> CHR ''-'') c)
            in group_push newGroups ones (newItem a b))
      else newGroups)"

definition combineInto :: "item list \<Rightarrow> item list \<Rightarrow> groups \<Rightarrow> groups" where
  "combineInto g1 g2 newGroups = fold (\<lambda>a ng. fold (\<lambda>b ng'. pushCombined a b ng') g2 ng) g1 newGroups"

definition markFirst :: "item list \<Rightarrow> item list \<Rightarrow> item list" where
  "markFirst g1 g2 =
     map (\<lambda>a. if \<exists>b \<in> set g2. canCombine (bin a) (bin b) then a\<lparr>used := True\<rparr> else a) g1"

definition markSecond :: "item list \<Rightarrow> item list \<Rightarrow> item list" where
  "markSecond g1 g2 =
     map (\<lambda>b. if \<exists>a \<in> set g1. canCombine (bin a) (bin b) then b\<lparr>used := True\<rparr> else b) g2"

definition anyPair :: "item list \<Rightarrow> item list \<Rightarrow> bool" where
  "anyPair g1 g2 = (\<exists>a \<in> set g1. \<exists>b \<in> set g2. canCombine (bin a) (bin b))"

text \<open>
  \<^verbatim>\<open>for (let idx = 0; idx < keys.length - 1; idx++)\<close>: the first argument is \<^verbatim>\<open>keys\<close>
  from \<^verbatim>\<open>idx\<close> on; the state is \<^verbatim>\<open>groups\<close> (for the flags), \<^verbatim>\<open>newGroups\<close> and
  \<^verbatim>\<open>anyCombined\<close>.
\<close>

fun combinePairs :: "nat list \<Rightarrow> groups \<Rightarrow> groups \<Rightarrow> bool \<Rightarrow> groups \<times> groups \<times> bool" where
  "combinePairs (k1 # k2 # keys) gs newGroups anyCombined =
     (let g1 = group_get gs k1; g2 = group_get gs k2;
          gs' = AList.update k2 (markSecond g1 g2) (AList.update k1 (markFirst g1 g2) gs)
      in combinePairs (k2 # keys) gs' (combineInto g1 g2 newGroups)
           (anyCombined \<or> anyPair g1 g2))"
| "combinePairs keys gs newGroups anyCombined = (gs, newGroups, anyCombined)"

text \<open>Deduplication of one new group: \<^verbatim>\<open>seen\<close> holds the keys met so far.\<close>

fun join :: "string \<Rightarrow> string list \<Rightarrow> string" where
  "join sep [] = []"
| "join sep [x] = x"
| "join sep (x # y # ys) = x @ sep @ join sep (y # ys)"

definition item_key :: "item \<Rightarrow> string" where
  "item_key it = bin it @ ''|'' @ join '','' (from' it)"

fun dedupItems :: "string list \<Rightarrow> item list \<Rightarrow> item list" where
  "dedupItems seen [] = []"
| "dedupItems seen (it # its) =
     (if item_key it \<in> set seen then dedupItems seen its
      else it # dedupItems (seen @ [item_key it]) its)"

definition dedupGroups :: "groups \<Rightarrow> groups" where
  "dedupGroups newGroups = map (\<lambda>(k, g). (k, dedupItems [] g)) newGroups"

definition collectPrimes :: "groups \<Rightarrow> string list" where
  "collectPrimes gs =
     concat (map (\<lambda>k. map bin (filter (\<lambda>it. \<not> used it) (group_get gs k))) (group_keys gs))"

text \<open>One pass of the body of \<^verbatim>\<open>while (anyCombined)\<close>.\<close>

definition qmRound :: "groups \<Rightarrow> groups \<times> string list \<times> bool" where
  "qmRound gs =
     (case combinePairs (group_keys gs) gs [] False of
        (gs', newGroups, anyCombined) \<Rightarrow> (dedupGroups newGroups, collectPrimes gs', anyCombined))"

subsection \<open>The combination loop and its termination\<close>

text \<open>
  The loop \<^verbatim>\<open>while (anyCombined)\<close> ends because, from the second round on, every
  group's key is the number of ones of its items, and a round that combines anything
  only creates items with fewer ones than the largest key. The measure below also
  covers a first round on groups with arbitrary keys.
\<close>

definition core :: "item \<Rightarrow> string \<times> string list" where
  "core it = (bin it, from' it)"

definition proper :: "groups \<Rightarrow> bool" where
  "proper gs = (\<forall>k. \<forall>it \<in> set (group_get gs k). countOnes (bin it) = k)"

definition itemsOf :: "groups \<Rightarrow> item set" where
  "itemsOf gs = (\<Union>k. set (group_get gs k))"

definition maxOnes :: "groups \<Rightarrow> nat" where
  "maxOnes gs = Max (insert 0 ((\<lambda>it. countOnes (bin it)) ` itemsOf gs))"

definition qm_measure :: "groups \<Rightarrow> nat" where
  "qm_measure gs = 2 * maxOnes gs + (if proper gs then 0 else 1)"

text \<open>The pairs (key, item) that one round can create from \<open>gs\<close>.\<close>

definition products :: "groups \<Rightarrow> (nat \<times> item) set" where
  "products gs =
     {(k, c). \<exists>k1 k2 a b. k1 < k2 \<and> a \<in> set (group_get gs k1) \<and> b \<in> set (group_get gs k2) \<and>
        canCombine (bin a) (bin b) \<and> c = newItem a b \<and> k = countOnes (bin c)}"

lemma group_get_Nil [simp]: "group_get [] k = []"
  by (simp add: group_get_def)

lemma group_get_update:
  "group_get (AList.update k v gs) k' = (if k' = k then v else group_get gs k')"
  by (simp add: group_get_def update_conv')

lemma group_get_push:
  "group_get (group_push gs k it) k' = (if k' = k then group_get gs k @ [it] else group_get gs k')"
  by (simp add: group_push_def group_get_update)

lemma group_get_empty_outside: "k \<notin> fst ` set gs \<Longrightarrow> group_get gs k = []"
  by (auto simp: group_get_def split: option.splits dest!: map_of_SomeD intro: rev_image_eqI)

lemma itemsOf_alt: "itemsOf gs = (\<Union>k \<in> fst ` set gs. set (group_get gs k))"
  unfolding itemsOf_def using group_get_empty_outside[of _ gs] by fastforce

lemma finite_itemsOf: "finite (itemsOf gs)"
  by (simp add: itemsOf_alt)

lemma maxOnes_ge: "it \<in> set (group_get gs k) \<Longrightarrow> countOnes (bin it) \<le> maxOnes gs"
  unfolding maxOnes_def using finite_itemsOf[of gs]
  by (intro Max_ge) (auto simp: itemsOf_def)

lemma maxOnes_less:
  assumes "\<And>k it. it \<in> set (group_get gs k) \<Longrightarrow> countOnes (bin it) < n" "0 < n"
  shows "maxOnes gs < n"
  unfolding maxOnes_def using finite_itemsOf[of gs] assms
  by (subst Max_less_iff) (auto simp: itemsOf_def)

lemma maxOnes_le:
  assumes "\<And>k it. it \<in> set (group_get gs k) \<Longrightarrow> countOnes (bin it) \<le> n"
  shows "maxOnes gs \<le> n"
  unfolding maxOnes_def using finite_itemsOf[of gs] assms
  by (subst Max_le_iff) (auto simp: itemsOf_def)

lemma core_mark [simp]:
  "map core (markFirst g1 g2) = map core g1" "map core (markSecond g1 g2) = map core g2"
  by (simp_all add: markFirst_def markSecond_def core_def)

lemma core_mem:
  assumes "map core g' = map core g" "a' \<in> set g'"
  shows "\<exists>a \<in> set g. core a = core a'"
proof -
  from assms(2) have "core a' \<in> set (map core g')" by simp
  with assms(1) show ?thesis by auto
qed

lemma newItem_core: "core a = core a' \<Longrightarrow> core b = core b' \<Longrightarrow> newItem a b = newItem a' b'"
  by (simp add: newItem_def core_def)

lemma combinePairs_core:
  "combinePairs keys gs ng anyC = (gs', ng', anyC') \<Longrightarrow>
   map core (group_get gs' k) = map core (group_get gs k)"
proof (induction keys gs ng anyC rule: combinePairs.induct)
  case (1 k1 k2 keys gs newGroups anyCombined)
  then show ?case
    by (simp add: Let_def group_get_update)
qed simp_all

lemma products_core:
  assumes "\<And>k. map core (group_get gs' k) = map core (group_get gs k)"
  shows "products gs' = products gs"
proof -
  have "products g1 \<subseteq> products g2"
    if h: "\<And>k. map core (group_get g1 k) = map core (group_get g2 k)" for g1 g2
  proof
    fix p assume "p \<in> products g1"
    then obtain k c k1 k2 a b where p: "p = (k, c)" and lt: "k1 < k2"
      and a: "a \<in> set (group_get g1 k1)" and b: "b \<in> set (group_get g1 k2)"
      and cc: "canCombine (bin a) (bin b)" and c: "c = newItem a b" and k: "k = countOnes (bin c)"
      by (auto simp: products_def)
    from core_mem[OF h a] obtain a2 where a2: "a2 \<in> set (group_get g2 k1)" "core a2 = core a" by auto
    from core_mem[OF h b] obtain b2 where b2: "b2 \<in> set (group_get g2 k2)" "core b2 = core b" by auto
    have "bin a2 = bin a" "bin b2 = bin b" using a2 b2 by (auto simp: core_def)
    moreover have "newItem a2 b2 = newItem a b" using a2 b2 by (intro newItem_core) auto
    ultimately have "\<exists>k1 k2 a b. k1 < k2 \<and> a \<in> set (group_get g2 k1) \<and> b \<in> set (group_get g2 k2) \<and>
        canCombine (bin a) (bin b) \<and> c = newItem a b \<and> k = countOnes (bin c)"
      using lt a2(1) b2(1) cc c k by metis
    then show "p \<in> products g2"
      unfolding products_def p by simp
  qed
  from this[of gs' gs] this[of gs gs'] assms show ?thesis by auto
qed

lemma countOnes_no_dash [simp]: "countOnes (filter (\<lambda>ch. ch \<noteq> CHR ''-'') s) = countOnes s"
  by (induction s) (auto simp: countOnes_def)

lemma pushCombined_mem:
  "it \<in> set (group_get (pushCombined a b ng) k) \<longleftrightarrow>
   it \<in> set (group_get ng k) \<or>
   (canCombine (bin a) (bin b) \<and> it = newItem a b \<and> k = countOnes (bin it))"
  by (auto simp: pushCombined_def Let_def group_get_push newItem_def split: if_splits)

lemma fold_pushCombined_mem:
  "it \<in> set (group_get (fold (\<lambda>b ng'. pushCombined a b ng') g2 ng) k) \<longleftrightarrow>
   it \<in> set (group_get ng k) \<or>
   (\<exists>b \<in> set g2. canCombine (bin a) (bin b) \<and> it = newItem a b \<and> k = countOnes (bin it))"
  by (induction g2 arbitrary: ng) (auto simp: pushCombined_mem)

lemma combineInto_mem:
  "it \<in> set (group_get (combineInto g1 g2 ng) k) \<longleftrightarrow>
   it \<in> set (group_get ng k) \<or>
   (\<exists>a \<in> set g1. \<exists>b \<in> set g2. canCombine (bin a) (bin b) \<and> it = newItem a b \<and>
      k = countOnes (bin it))"
  unfolding combineInto_def
  by (induction g1 arbitrary: ng) (auto simp: fold_pushCombined_mem)


lemma combinePairs_mem:
  "sorted_wrt (<) keys \<Longrightarrow> combinePairs keys gs ng anyC = (gs', ng', anyC') \<Longrightarrow>
   it \<in> set (group_get ng' k) \<Longrightarrow>
   it \<in> set (group_get ng k) \<or> (k, it) \<in> products gs"
proof (induction keys gs ng anyC rule: combinePairs.induct)
  case (1 k1 k2 keys gs newGroups anyCombined)
  let ?g1 = "group_get gs k1" and ?g2 = "group_get gs k2"
  let ?gs1 = "AList.update k2 (markSecond ?g1 ?g2) (AList.update k1 (markFirst ?g1 ?g2) gs)"
  have lt: "k1 < k2" and srt: "sorted_wrt (<) (k2 # keys)" using "1.prems"(1) by auto
  have cores: "map core (group_get ?gs1 k') = map core (group_get gs k')" for k'
    by (simp add: group_get_update)
  have step: "combinePairs (k2 # keys) ?gs1 (combineInto ?g1 ?g2 newGroups)
                (anyCombined \<or> anyPair ?g1 ?g2) = (gs', ng', anyC')"
    using "1.prems"(2) by (simp add: Let_def)
  from "1.IH"[OF refl refl refl srt step "1.prems"(3)]
  have "it \<in> set (group_get (combineInto ?g1 ?g2 newGroups) k) \<or> (k, it) \<in> products gs"
    by (simp add: products_core[OF cores])
  then show ?case
  proof
    assume "it \<in> set (group_get (combineInto ?g1 ?g2 newGroups) k)"
    then consider "it \<in> set (group_get newGroups k)"
      | a b where "a \<in> set ?g1" "b \<in> set ?g2" "canCombine (bin a) (bin b)" "it = newItem a b"
          "k = countOnes (bin it)"
      by (auto simp: combineInto_mem)
    then show ?thesis
    proof cases
      case 1 then show ?thesis by simp
    next
      case 2
      then have "(k, it) \<in> products gs" unfolding products_def using lt by blast
      then show ?thesis by simp
    qed
  qed simp
qed simp_all

lemma combinePairs_any:
  "sorted_wrt (<) keys \<Longrightarrow> combinePairs keys gs ng anyC = (gs', ng', anyC') \<Longrightarrow> anyC' \<Longrightarrow>
   anyC \<or> products gs \<noteq> {}"
proof (induction keys gs ng anyC rule: combinePairs.induct)
  case (1 k1 k2 keys gs newGroups anyCombined)
  let ?g1 = "group_get gs k1" and ?g2 = "group_get gs k2"
  let ?gs1 = "AList.update k2 (markSecond ?g1 ?g2) (AList.update k1 (markFirst ?g1 ?g2) gs)"
  have lt: "k1 < k2" and srt: "sorted_wrt (<) (k2 # keys)" using "1.prems"(1) by auto
  have cores: "map core (group_get ?gs1 k') = map core (group_get gs k')" for k'
    by (simp add: group_get_update)
  have step: "combinePairs (k2 # keys) ?gs1 (combineInto ?g1 ?g2 newGroups)
                (anyCombined \<or> anyPair ?g1 ?g2) = (gs', ng', anyC')"
    using "1.prems"(2) by (simp add: Let_def)
  from "1.IH"[OF refl refl refl srt step "1.prems"(3)]
  have "anyCombined \<or> anyPair ?g1 ?g2 \<or> products gs \<noteq> {}"
    by (simp add: products_core[OF cores])
  moreover have "products gs \<noteq> {}" if "anyPair ?g1 ?g2"
  proof -
    from that obtain a b where "a \<in> set ?g1" "b \<in> set ?g2" "canCombine (bin a) (bin b)"
      by (auto simp: anyPair_def)
    then have "(countOnes (bin (newItem a b)), newItem a b) \<in> products gs"
      unfolding products_def using lt by blast
    then show ?thesis by auto
  qed
  ultimately show ?case by auto
qed simp_all

lemma sorted_wrt_group_keys: "sorted_wrt (<) (group_keys gs)"
  by (simp add: group_keys_def strict_sorted_iff)

lemma countOnes_combine_le: "countOnes (combine a b) \<le> countOnes a"
  by (induction a b rule: combine.induct) (auto simp: countOnes_def)

lemma map_of_dedupGroups:
  "map_of (dedupGroups ng) k = map_option (dedupItems []) (map_of ng k)"
  by (induction ng) (auto simp: dedupGroups_def)

lemma group_get_dedupGroups: "group_get (dedupGroups ng) k = dedupItems [] (group_get ng k)"
  by (simp add: group_get_def map_of_dedupGroups split: option.splits)

lemma set_dedupItems: "set (dedupItems seen its) \<subseteq> set its"
  by (induction seen its rule: dedupItems.induct) auto

lemma qmRound_products:
  assumes "qmRound gs = (ng, primes, anyC)" "it \<in> set (group_get ng k)"
  shows "(k, it) \<in> products gs"
proof -
  obtain gs' ng0 where cp: "combinePairs (group_keys gs) gs [] False = (gs', ng0, anyC)"
    and ng: "ng = dedupGroups ng0"
    using assms(1) by (auto simp: qmRound_def split: prod.splits)
  have "it \<in> set (group_get ng0 k)"
    using assms(2) set_dedupItems unfolding ng group_get_dedupGroups by blast
  from combinePairs_mem[OF sorted_wrt_group_keys cp this] show ?thesis by simp
qed

lemma qmRound_any:
  assumes "qmRound gs = (ng, primes, True)"
  shows "products gs \<noteq> {}"
proof -
  obtain gs' ng0 where cp: "combinePairs (group_keys gs) gs [] False = (gs', ng0, True)"
    using assms(1) by (auto simp: qmRound_def split: prod.splits)
  from combinePairs_any[OF sorted_wrt_group_keys cp] show ?thesis by simp
qed

lemma qmRound_proper:
  assumes "qmRound gs = (ng, primes, anyC)"
  shows "proper ng"
  unfolding proper_def using qmRound_products[OF assms] by (auto simp: products_def)

lemma qmRound_measure:
  assumes "qmRound gs = (ng, primes, True)"
  shows "qm_measure ng < qm_measure gs"
proof -
  have pr: "proper ng" by (rule qmRound_proper[OF assms])
  have le: "countOnes (bin it) \<le> maxOnes gs" if "it \<in> set (group_get ng k)" for it k
  proof -
    from qmRound_products[OF assms that] obtain k1 a b where
      "a \<in> set (group_get gs k1)" "it = newItem a b"
      by (auto simp: products_def)
    then have "countOnes (bin it) \<le> countOnes (bin a)" "countOnes (bin a) \<le> maxOnes gs"
      by (auto simp: newItem_def countOnes_combine_le maxOnes_ge)
    then show ?thesis by simp
  qed
  show ?thesis
  proof (cases "proper gs")
    case False
    have "maxOnes ng \<le> maxOnes gs" by (rule maxOnes_le) (rule le)
    then show ?thesis using pr False by (simp add: qm_measure_def)
  next
    case True
    have lt: "countOnes (bin c) < maxOnes gs" if "(k, c) \<in> products gs" for k c
    proof -
      from that obtain k1 k2 a b where "k1 < k2" "a \<in> set (group_get gs k1)"
        "b \<in> set (group_get gs k2)" "c = newItem a b"
        by (auto simp: products_def)
      moreover from this True have "countOnes (bin a) = k1" "countOnes (bin b) = k2"
        by (auto simp: proper_def)
      moreover have "countOnes (bin c) \<le> countOnes (bin a)"
        using \<open>c = newItem a b\<close> by (simp add: newItem_def countOnes_combine_le)
      moreover have "countOnes (bin b) \<le> maxOnes gs"
        using \<open>b \<in> set (group_get gs k2)\<close> by (rule maxOnes_ge)
      ultimately show ?thesis by simp
    qed
    from qmRound_any[OF assms] obtain k c where "(k, c) \<in> products gs" by auto
    from lt[OF this] have pos: "0 < maxOnes gs" by simp
    have "maxOnes ng < maxOnes gs"
      using lt qmRound_products[OF assms] pos by (intro maxOnes_less) auto
    then show ?thesis using pr True by (simp add: qm_measure_def)
  qed
qed

text \<open>The loop \<^verbatim>\<open>while (anyCombined)\<close>, entered with \<^verbatim>\<open>anyCombined = true\<close>.\<close>

function qmLoop :: "groups \<Rightarrow> string list list \<Rightarrow> groups \<times> string list list" where
  "qmLoop gs allCombinedLevels =
     (case qmRound gs of
        (newGroups, primes, anyCombined) \<Rightarrow>
          if anyCombined then qmLoop newGroups (allCombinedLevels @ [primes])
          else (newGroups, allCombinedLevels @ [primes]))"
  by pat_completeness auto
termination
  by (relation "measure (\<lambda>(gs, levels). qm_measure gs)")
     (auto intro: qmRound_measure[OF sym])

declare qmLoop.simps [simp del]

subsection \<open>Prime implicant chart and selection\<close>

text \<open>\<^verbatim>\<open>s.add(x)\<close> on a \<^verbatim>\<open>Set\<close>, kept as the list of its elements in insertion order.\<close>

definition set_add :: "'a \<Rightarrow> 'a list \<Rightarrow> 'a list" where
  "set_add x xs = (if x \<in> set xs then xs else xs @ [x])"

text \<open>Phase 3: \<^verbatim>\<open>finalPrimes\<close>, as \<^verbatim>\<open>Array.from\<close> lists it.\<close>

definition finalPrimes :: "groups \<Rightarrow> string list list \<Rightarrow> string list" where
  "finalPrimes gs allCombinedLevels =
     fold set_add
       (concat allCombinedLevels @ concat (map (\<lambda>k. map bin (group_get gs k)) (group_keys gs)))
       []"

text \<open>Phase 4: row \<open>i\<close> of \<^verbatim>\<open>cover\<close> lists the primes covering minterm \<open>i\<close>.\<close>

definition buildCover :: "string list \<Rightarrow> string list \<Rightarrow> nat list list" where
  "buildCover primeList minBin =
     map (\<lambda>mb. filter (\<lambda>j. covers (primeList ! j) mb) [0..<length primeList]) minBin"

text \<open>Phase 5: essential prime implicants.\<close>

definition essentials :: "nat list list \<Rightarrow> nat list" where
  "essentials cover =
     fold (\<lambda>row chosen. if length row = 1 then set_add (row ! 0) chosen else chosen) cover []"

definition markCovered :: "nat list list \<Rightarrow> nat list \<Rightarrow> nat list \<Rightarrow> nat list" where
  "markCovered cover chosen coveredRows =
     fold (\<lambda>i covered.
             if i \<in> set covered then covered
             else if \<exists>j \<in> set (cover ! i). j \<in> set chosen then set_add i covered
             else covered)
       [0..<length cover] coveredRows"

text \<open>
  Phase 6: the scan for \<^verbatim>\<open>bestJ\<close>. \<^verbatim>\<open>bestJ = -1\<close> is \<open>None\<close>; \<^verbatim>\<open>bestCoverCount\<close>
  starts at \<open>-1\<close>.
\<close>

definition coverCount :: "nat list list \<Rightarrow> nat list \<Rightarrow> nat \<Rightarrow> nat" where
  "coverCount cover coveredRows j =
     length (filter (\<lambda>i. i \<notin> set coveredRows \<and> j \<in> set (cover ! i)) [0..<length cover])"

definition bestStep ::
  "nat list list \<Rightarrow> nat list \<Rightarrow> nat list \<Rightarrow> nat \<Rightarrow> nat option \<times> int \<Rightarrow> nat option \<times> int" where
  "bestStep cover chosen coveredRows j best =
     (case best of (bestJ, bestCoverCount) \<Rightarrow>
        if j \<notin> set chosen \<and> int (coverCount cover coveredRows j) > bestCoverCount
        then (Some j, int (coverCount cover coveredRows j))
        else (bestJ, bestCoverCount))"

definition pickBest :: "nat \<Rightarrow> nat list list \<Rightarrow> nat list \<Rightarrow> nat list \<Rightarrow> nat option \<times> int" where
  "pickBest nPrimes cover chosen coveredRows =
     fold (bestStep cover chosen coveredRows) [0..<nPrimes] (None, -1)"

lemma bestStep_Some:
  "fst (bestStep cover chosen coveredRows x best) = Some j \<Longrightarrow>
   fst best = Some j \<or> (j = x \<and> j \<notin> set chosen)"
  by (auto simp: bestStep_def split: prod.splits if_splits)

lemma pickBest_fold_Some:
  "fst (fold (bestStep cover chosen coveredRows) js best) = Some j \<Longrightarrow>
   fst best = Some j \<or> (j \<in> set js \<and> j \<notin> set chosen)"
proof (induction js arbitrary: best)
  case Nil
  then show ?case by simp
next
  case (Cons x js)
  from Cons.IH[of "bestStep cover chosen coveredRows x best"] Cons.prems
  have "fst (bestStep cover chosen coveredRows x best) = Some j \<or> (j \<in> set js \<and> j \<notin> set chosen)"
    by simp
  then show ?case using bestStep_Some[of cover chosen coveredRows x best j] by auto
qed

lemma pickBest_Some:
  "fst (pickBest nPrimes cover chosen coveredRows) = Some j \<Longrightarrow> j < nPrimes \<and> j \<notin> set chosen"
  unfolding pickBest_def by (drule pickBest_fold_Some) auto

lemma set_set_add: "set (set_add x xs) = insert x (set xs)"
  by (auto simp: set_add_def)

lemma card_unchosen_less:
  assumes "(j::nat) < nPrimes" "j \<notin> set chosen"
  shows "card ({0..<nPrimes} - set (set_add j chosen)) < card ({0..<nPrimes} - set chosen)"
proof -
  have eq: "{0..<nPrimes} - set (set_add j chosen) = ({0..<nPrimes} - set chosen) - {j}"
    by (auto simp: set_set_add)
  have "j \<in> {0..<nPrimes} - set chosen" using assms by simp
  then show ?thesis unfolding eq by (intro card_Diff1_less) simp_all
qed

text \<open>The loop \<^verbatim>\<open>while (coveredRows.size < minBin.length)\<close>.\<close>

function greedyLoop :: "nat \<Rightarrow> nat list list \<Rightarrow> nat list \<Rightarrow> nat list \<Rightarrow> nat list" where
  "greedyLoop nPrimes cover chosen coveredRows =
     (if length coveredRows < length cover then
        (case fst (pickBest nPrimes cover chosen coveredRows) of
           None \<Rightarrow> chosen
         | Some bestJ \<Rightarrow>
             greedyLoop nPrimes cover (set_add bestJ chosen)
               (markCovered cover (set_add bestJ chosen) coveredRows))
      else chosen)"
  by pat_completeness auto
termination
  by (relation "measure (\<lambda>(nPrimes, cover, chosen, coveredRows).
                  card ({0..<nPrimes} - set chosen))")
     (auto dest!: pickBest_Some intro!: card_unchosen_less)

declare greedyLoop.simps [simp del]

definition primeImplicants :: "string list \<Rightarrow> string list" where
  "primeImplicants bins =
     (case qmLoop (initGroups bins) [] of
        (gs, allCombinedLevels) \<Rightarrow> finalPrimes gs allCombinedLevels)"

definition selectImplicants :: "string list \<Rightarrow> string list \<Rightarrow> nat list" where
  "selectImplicants primeList minBin =
     (let cover = buildCover primeList minBin;
          chosen = essentials cover
      in greedyLoop (length primeList) cover chosen (markCovered cover chosen []))"

subsection \<open>Rendering\<close>

text \<open>
  \<^verbatim>\<open>vars[i]\<close>: past the end of the array it is \<^verbatim>\<open>undefined\<close>, which string
  concatenation turns into the text \<^verbatim>\<open>undefined\<close>.
\<close>

definition varAt :: "string list \<Rightarrow> nat \<Rightarrow> string" where
  "varAt vars i = (if i < length vars then vars ! i else ''undefined'')"

text \<open>The loop over \<^verbatim>\<open>mask\<close> (\<open>msk\<close>) from index \<open>i\<close> on, appending to \<open>s\<close>.\<close>

fun sopLoop :: "string \<Rightarrow> string list \<Rightarrow> nat \<Rightarrow> string \<Rightarrow> string" where
  "sopLoop [] vars i s = s"
| "sopLoop (c # msk) vars i s =
     (if c = CHR ''-'' then sopLoop msk vars (i + 1) s
      else sopLoop msk vars (i + 1)
             (s @ (if c = CHR ''1'' then varAt vars i else varAt vars i @ [apostrophe])))"

definition sopTerm :: "string list \<Rightarrow> string \<Rightarrow> string" where
  "sopTerm vars msk = (let s = sopLoop msk vars 0 [] in if s = [] then ''1'' else s)"

definition implicantsToSOP :: "string list \<Rightarrow> string list \<Rightarrow> string" where
  "implicantsToSOP impls vars =
     (if impls = [] then ''0'' else join '' + '' (map (sopTerm vars) impls))"

fun posLoop :: "string \<Rightarrow> string list \<Rightarrow> nat \<Rightarrow> string \<Rightarrow> string" where
  "posLoop [] vars i s = s"
| "posLoop (c # msk) vars i s =
     (if c = CHR ''-'' then posLoop msk vars (i + 1) s
      else posLoop msk vars (i + 1)
             ((if s \<noteq> [] then s @ '' + '' else s)
              @ (if c = CHR ''0'' then varAt vars i else varAt vars i @ [apostrophe])))"

definition posTerm :: "string list \<Rightarrow> string \<Rightarrow> string" where
  "posTerm vars msk =
     (let s = posLoop msk vars 0 [] in if s \<noteq> [] then ''('' @ s @ '')'' else ''1'')"

definition implicantsToPOS :: "string list \<Rightarrow> string list \<Rightarrow> string" where
  "implicantsToPOS impls vars =
     (if impls = [] then ''1'' else join [] (map (posTerm vars) impls))"

subsection \<open>The minimizer\<close>

record qmResult =
  implicants :: "string list"
  result :: string

definition qmSimplify :: "nat list \<Rightarrow> nat list \<Rightarrow> string list \<Rightarrow> string \<Rightarrow> qmResult" where
  "qmSimplify minterms dontcares varNames mode =
     (let allTerms = minterms @ dontcares in
      if allTerms = [] then \<lparr>implicants = [], result = (if mode = ''SOP'' then ''0'' else ''1'')\<rparr>
      else
        (let W = length varNames;
             bins = map (\<lambda>m. toBin m W) allTerms;
             primeList = primeImplicants bins;
             minBin = map (\<lambda>m. toBin m W) minterms;
             chosen = selectImplicants primeList minBin;
             impls = map (\<lambda>j. primeList ! j) chosen
         in if mode = ''SOP''
            then \<lparr>implicants = impls, result = implicantsToSOP impls varNames\<rparr>
            else \<lparr>implicants = impls, result = implicantsToPOS impls varNames\<rparr>))"

section \<open>K-map layout\<close>

definition GRAY2 :: "int list" where
  "GRAY2 = [0, 1]"

definition GRAY4 :: "int list" where
  "GRAY4 = [0, 1, 3, 2]"

text \<open>
  \<^verbatim>\<open>xs[i]\<close> is \<open>None\<close> (\<^verbatim>\<open>undefined\<close>) past the end; the bitwise operators read
  \<^verbatim>\<open>undefined\<close> as 0 and work on 32-bit two's complement integers, with the shift
  count taken modulo 32.
\<close>

definition arrayGet :: "'a list \<Rightarrow> nat \<Rightarrow> 'a option" where
  "arrayGet xs i = (if i < length xs then Some (xs ! i) else None)"

definition toInt32 :: "int option \<Rightarrow> 32 word" where
  "toInt32 x = (case x of None \<Rightarrow> 0 | Some v \<Rightarrow> word_of_int v)"

definition shl32 :: "int option \<Rightarrow> nat \<Rightarrow> int" where
  "shl32 x k = sint (push_bit (k mod 32) (toInt32 x))"

definition sar32 :: "int option \<Rightarrow> nat \<Rightarrow> int" where
  "sar32 x k = sint (signed_drop_bit (k mod 32) (toInt32 x))"

definition and32 :: "int option \<Rightarrow> int option \<Rightarrow> int" where
  "and32 x y = sint (toInt32 x AND toInt32 y)"

definition or32 :: "int option \<Rightarrow> int option \<Rightarrow> int" where
  "or32 x y = sint (toInt32 x OR toInt32 y)"

record layout =
  rows :: "int list"
  cols :: "int list"
  rowVars :: "string list"
  colVars :: "string list"
  index :: "nat \<Rightarrow> nat \<Rightarrow> int option"

definition kmapLayoutForVars :: "nat \<Rightarrow> layout option" where
  "kmapLayoutForVars nVars =
     (if nVars = 1 then
        Some \<lparr>rows = [0, 1], cols = [0], rowVars = [''A''], colVars = [],
              index = (\<lambda>r c. arrayGet GRAY2 r)\<rparr>
      else if nVars = 2 then
        Some \<lparr>rows = GRAY2, cols = GRAY2, rowVars = [''A''], colVars = [''B''],
              index = (\<lambda>r c.
                let A = arrayGet GRAY2 r; B = arrayGet GRAY2 c
                in Some (or32 (Some (shl32 A 1)) B))\<rparr>
      else if nVars = 3 then
        Some \<lparr>rows = GRAY2, cols = GRAY4, rowVars = [''A''], colVars = [''B'', ''C''],
              index = (\<lambda>r c.
                let A = arrayGet GRAY2 r; BC = arrayGet GRAY4 c;
                    B = and32 (Some (sar32 BC 1)) (Some 1);
                    C = and32 BC (Some 1)
                in Some (or32 (Some (or32 (Some (shl32 A 2)) (Some (shl32 (Some B) 1))))
                           (Some C)))\<rparr>
      else if nVars = 4 then
        Some \<lparr>rows = GRAY4, cols = GRAY4, rowVars = [''A'', ''B''], colVars = [''C'', ''D''],
              index = (\<lambda>r c.
                let AB = arrayGet GRAY4 r; CD = arrayGet GRAY4 c;
                    A = and32 (Some (sar32 AB 1)) (Some 1);
                    B = and32 AB (Some 1);
                    C = and32 (Some (sar32 CD 1)) (Some 1);
                    D = and32 CD (Some 1)
                in Some (or32 (Some (or32 (Some (or32 (Some (shl32 (Some A) 3))
                                                   (Some (shl32 (Some B) 2))))
                                      (Some (shl32 (Some C) 1))))
                           (Some D)))\<rparr>
      else None)"

text \<open>
  Two minterm indices differ in exactly one bit: of the 32 bit positions of the
  integers the bitwise operators produce, exactly one holds different bits.
\<close>

definition differInOneBit :: "int option \<Rightarrow> int option \<Rightarrow> bool" where
  "differInOneBit x y =
     (case (x, y) of
        (Some a, Some b) \<Rightarrow> length (filter (\<lambda>i. bit a i \<noteq> bit b i) [0..<32]) = 1
      | _ \<Rightarrow> False)"

definition adjacentOK :: "layout \<Rightarrow> nat \<Rightarrow> nat \<Rightarrow> bool" where
  "adjacentOK l r c =
     ((1 < length (rows l) \<longrightarrow>
         differInOneBit (index l r c) (index l ((r + 1) mod length (rows l)) c)) \<and>
      (1 < length (cols l) \<longrightarrow>
         differInOneBit (index l r c) (index l r ((c + 1) mod length (cols l)))))"

section \<open>Truth table\<close>

text \<open>A row \<^verbatim>\<open>{ m, env, y }\<close>.\<close>

record row =
  rowM :: nat
  rowEnv :: env
  rowY :: int

text \<open>
  The inner loop: \<^verbatim>\<open>env[vars[i]] = (m >> (n - 1 - i)) & 1\<close> for \<open>i\<close> from 0 to \<open>n - 1\<close>,
  starting from \<^verbatim>\<open>env = {}\<close>. The assignment creates or overwrites an own property for
  every name but \<^verbatim>\<open>__proto__\<close>, which a plain object does not store; the map below is
  the object for variable lists without that name, in particular for lists of letters.
\<close>

definition buildEnv :: "string list \<Rightarrow> nat \<Rightarrow> env" where
  "buildEnv vars mm =
     fold (\<lambda>i e. e(vars ! i \<mapsto> and32 (Some (sar32 (Some (int mm)) (length vars - 1 - i))) (Some 1)))
       [0..<length vars] Map.empty"

text \<open>
  The outer loop over \<^verbatim>\<open>m\<close>; an exception of \<^verbatim>\<open>evalRPN\<close> leaves the function. \<^verbatim>\<open>rpn\<close> is
  \<open>None\<close> when the caller passes \<^verbatim>\<open>null\<close> or \<^verbatim>\<open>undefined\<close>; an empty array is truthy.
\<close>

fun tableRows :: "string list \<Rightarrow> token list option \<Rightarrow> nat list \<Rightarrow> error + row list" where
  "tableRows vars rpn [] = Inr []"
| "tableRows vars rpn (mm # ms) =
     (case (case rpn of None \<Rightarrow> Inr 0 | Some r \<Rightarrow> evalRPN r (buildEnv vars mm)) of
        Inl e \<Rightarrow> Inl e
      | Inr yy \<Rightarrow>
          (case tableRows vars rpn ms of
             Inl e \<Rightarrow> Inl e
           | Inr rs \<Rightarrow> Inr (\<lparr>rowM = mm, rowEnv = buildEnv vars mm, rowY = yy\<rparr> # rs)))"

definition buildTruthTable :: "string list \<Rightarrow> token list option \<Rightarrow> error + row list" where
  "buildTruthTable vars rpn =
     (let n = length vars; total = shl32 (Some 1) n
      in tableRows vars rpn [0..<nat total])"

section \<open>The evaluator as a stack machine\<close>

lemma evalLoop_append:
  "evalLoop env (xs @ ys) stack =
     (case evalLoop env xs stack of Inl e \<Rightarrow> Inl e | Inr stack' \<Rightarrow> evalLoop env ys stack')"
  by (induction xs arbitrary: stack) (auto split: sum.splits)

lemma evalLoop_step_error:
  "evalLoop env pre [] = Inr stack \<Longrightarrow> evalStep env tok stack = Inl e \<Longrightarrow>
   evalRPN (pre @ tok # post) env = Inl e"
  by (simp add: evalRPN_def evalLoop_append)

lemma evalLoop_snoc:
  "evalLoop env pre [] = Inr stack \<Longrightarrow>
   evalLoop env (pre @ [tok]) [] = evalStep env tok stack"
  by (simp add: evalLoop_append split: sum.splits)

text \<open>
  Claim C4. Let a prefix of the postfix sequence have run without error and left a
  stack. Then: a variable (a token named by one upper-case letter, the only names the
  tokenizer gives, see \<open>tokenize_var_names\<close> below) absent from the environment stops
  the evaluator with \<open>UndefinedVariable\<close>; \<open>NOT\<close> on an empty stack and any other operator on fewer than
  two values stop it with \<open>InsufficientOperands\<close>; on a stack \<open>b, a, ...\<close> (top first)
  \<open>AND\<close>, \<open>OR\<close> and \<open>XOR\<close> replace the two values by \<open>a \<and> b\<close>, \<open>a \<or> b\<close>, \<open>a \<noteq> b\<close>;
  and after all tokens the evaluator returns a bit exactly when one value is left
  (that value, as 0 or 1), any other count being \<open>InvalidExpression\<close>.
\<close>

theorem evalRPN_stack_machine:
  "(evalLoop env p1 [] = Inr s1 \<longrightarrow> (\<exists>c. v = [c] \<and> upperLetter c) \<longrightarrow> env v = None \<longrightarrow>
      evalRPN (p1 @ VAR v # q1) env = Inl (UndefinedVariable v)) \<and>
   (evalLoop env p2 [] = Inr [] \<longrightarrow> value t2 = ''NOT'' \<longrightarrow>
      evalRPN (p2 @ OP t2 # q2) env = Inl (InsufficientOperands ''NOT'')) \<and>
   (evalLoop env p3 [] = Inr s3 \<longrightarrow> value t3 \<noteq> ''NOT'' \<longrightarrow> length s3 < 2 \<longrightarrow>
      evalRPN (p3 @ OP t3 # q3) env = Inl (InsufficientOperands (value t3))) \<and>
   (evalLoop env p4 [] = Inr (b # a # s4) \<longrightarrow>
      (value ta = ''AND'' \<longrightarrow> evalLoop env (p4 @ [OP ta]) [] = Inr ((a \<and> b) # s4)) \<and>
      (value to = ''OR'' \<longrightarrow> evalLoop env (p4 @ [OP to]) [] = Inr ((a \<or> b) # s4)) \<and>
      (value tx = ''XOR'' \<longrightarrow> evalLoop env (p4 @ [OP tx]) [] = Inr ((a \<noteq> b) # s4))) \<and>
   (evalLoop env p5 [] = Inr s5 \<longrightarrow>
      ((\<exists>res. evalRPN p5 env = Inr res) \<longleftrightarrow> length s5 = 1)) \<and>
   (evalLoop env p6 [] = Inr [x] \<longrightarrow> evalRPN p6 env = Inr (if x then 1 else 0)) \<and>
   (evalLoop env p7 [] = Inr s7 \<longrightarrow> length s7 \<noteq> 1 \<longrightarrow> evalRPN p7 env = Inl InvalidExpression)"
proof (intro conjI impI)
  assume "evalLoop env p1 [] = Inr s1" "\<exists>c. v = [c] \<and> upperLetter c" "env v = None"
  then show "evalRPN (p1 @ VAR v # q1) env = Inl (UndefinedVariable v)"
    by (intro evalLoop_step_error) auto
next
  assume "evalLoop env p2 [] = Inr []" "value t2 = ''NOT''"
  then show "evalRPN (p2 @ OP t2 # q2) env = Inl (InsufficientOperands ''NOT'')"
    by (intro evalLoop_step_error) auto
next
  assume "evalLoop env p3 [] = Inr s3" "value t3 \<noteq> ''NOT''" "length s3 < 2"
  then show "evalRPN (p3 @ OP t3 # q3) env = Inl (InsufficientOperands (value t3))"
    by (intro evalLoop_step_error) (auto split: list.splits)
next
  assume "evalLoop env p4 [] = Inr (b # a # s4)" "value ta = ''AND''"
  then show "evalLoop env (p4 @ [OP ta]) [] = Inr ((a \<and> b) # s4)"
    by (simp add: evalLoop_snoc)
next
  assume "evalLoop env p4 [] = Inr (b # a # s4)" "value to = ''OR''"
  then show "evalLoop env (p4 @ [OP to]) [] = Inr ((a \<or> b) # s4)"
    by (simp add: evalLoop_snoc)
next
  assume "evalLoop env p4 [] = Inr (b # a # s4)" "value tx = ''XOR''"
  then show "evalLoop env (p4 @ [OP tx]) [] = Inr ((a \<noteq> b) # s4)"
    by (simp add: evalLoop_snoc)
next
  assume "evalLoop env p5 [] = Inr s5"
  then show "(\<exists>res. evalRPN p5 env = Inr res) \<longleftrightarrow> length s5 = 1"
    by (auto simp: evalRPN_def length_Suc_conv split: list.splits)
next
  assume "evalLoop env p6 [] = Inr [x]"
  then show "evalRPN p6 env = Inr (if x then 1 else 0)"
    by (simp add: evalRPN_def)
next
  assume "evalLoop env p7 [] = Inr s7" "length s7 \<noteq> 1"
  then show "evalRPN p7 env = Inl InvalidExpression"
    by (auto simp: evalRPN_def split: list.splits)
qed

theorem evalRPN_stack_machine_witness:
  "evalRPN [VAR ''B''] [''A'' \<mapsto> 1] = Inl (UndefinedVariable ''B'') \<and>
   evalRPN [postfixNOT] [''A'' \<mapsto> 1] = Inl (InsufficientOperands ''NOT'') \<and>
   evalRPN [NUM 1, implicitAND] [''A'' \<mapsto> 1] = Inl (InsufficientOperands ''AND'') \<and>
   evalLoop [''A'' \<mapsto> 1] [NUM 1, NUM 0, binaryOp (CHR ''&'')] [] = Inr [False] \<and>
   evalLoop [''A'' \<mapsto> 1] [NUM 1, NUM 0, binaryOp (CHR ''|'')] [] = Inr [True] \<and>
   evalLoop [''A'' \<mapsto> 1] [NUM 1, NUM 0, binaryOp (CHR ''^'')] [] = Inr [True] \<and>
   (\<exists>res. evalRPN [VAR ''A''] [''A'' \<mapsto> 1] = Inr res) \<and>
   evalRPN [VAR ''A''] [''A'' \<mapsto> 1] = Inr 1 \<and>
   evalRPN [] [''A'' \<mapsto> 1] = Inl InvalidExpression"
  using evalRPN_stack_machine[where env = "[''A'' \<mapsto> 1]"
      and ?p1.0 = "[]" and ?s1.0 = "[]" and v = "''B''" and ?q1.0 = "[]"
      and ?p2.0 = "[]" and ?q2.0 = "[]"
      and ?t2.0 = "\<lparr>value = ''NOT'', unary = True, postfix = True, precedence = 4,
                    associativity = ''right'', implicit = False\<rparr>"
      and ?p3.0 = "[NUM 1]" and ?s3.0 = "[True]" and ?q3.0 = "[]"
      and ?t3.0 = "\<lparr>value = ''AND'', unary = False, postfix = False, precedence = 3,
                     associativity = ''left'', implicit = True\<rparr>"
      and ?p4.0 = "[NUM 1, NUM 0]" and b = False and a = True and ?s4.0 = "[]"
      and ta = "\<lparr>value = ''AND'', unary = False, postfix = False, precedence = 3,
              associativity = ''left'', implicit = False\<rparr>"
      and to = "\<lparr>value = ''OR'', unary = False, postfix = False, precedence = 1,
              associativity = ''left'', implicit = False\<rparr>"
      and tx = "\<lparr>value = ''XOR'', unary = False, postfix = False, precedence = 2,
              associativity = ''left'', implicit = False\<rparr>"
      and ?p5.0 = "[VAR ''A'']" and ?s5.0 = "[True]"
      and ?p6.0 = "[VAR ''A'']" and x = True
      and ?p7.0 = "[]" and ?s7.0 = "[]"]
  by (simp add: postfixNOT_def implicitAND_def binaryOp_def upperLetter_def)

section \<open>Apostrophes in the tokenizer\<close>

lemma push_tok_simps [simp]:
  "push_tok t (Inl e) = Inl e" "push_tok t (Inr ts) = Inr (t # ts)"
  by (simp_all add: push_tok_def)

lemma push_tok_Inr_iff: "push_tok t r = Inr ts \<longleftrightarrow> (\<exists>ts'. r = Inr ts' \<and> ts = t # ts')"
  by (cases r) auto

lemma apostrophe_class [simp]:
  "\<not> is_letter apostrophe" "apostrophe \<noteq> CHR ''0''" "apostrophe \<noteq> CHR ''1''"
  "apostrophe \<noteq> CHR ''(''" "apostrophe \<noteq> CHR '')''" "apostrophe \<noteq> CHR ''!''"
  "apostrophe \<noteq> CHR ''~''" "apostrophe \<noteq> CHR ''&''" "apostrophe \<noteq> CHR ''*''"
  "apostrophe \<noteq> CHR ''+''" "apostrophe \<noteq> CHR ''|''" "apostrophe \<noteq> CHR ''^''"
  by (simp_all add: apostrophe_def is_letter_def)

lemma tokenize_from_apostrophe [simp]:
  "tokenize_from i (apostrophe # rest) = Inl (LexError i apostrophe)"
  by (simp add: apostrophe_def is_letter_def)

lemma last_not_apostrophe_split:
  assumes "cs \<noteq> []" "last cs \<noteq> apostrophe"
  shows "takeWhile (\<lambda>c. c = apostrophe) (cs @ xs) = takeWhile (\<lambda>c. c = apostrophe) cs"
    and "dropWhile (\<lambda>c. c = apostrophe) (cs @ xs) = dropWhile (\<lambda>c. c = apostrophe) cs @ xs"
    and "dropWhile (\<lambda>c. c = apostrophe) cs \<noteq> []"
    and "last (dropWhile (\<lambda>c. c = apostrophe) cs) = last cs"
proof -
  have mem: "last cs \<in> set cs" using assms(1) by simp
  show "takeWhile (\<lambda>c. c = apostrophe) (cs @ xs) = takeWhile (\<lambda>c. c = apostrophe) cs"
    using mem assms(2) by (intro takeWhile_append1) auto
  show "dropWhile (\<lambda>c. c = apostrophe) (cs @ xs) = dropWhile (\<lambda>c. c = apostrophe) cs @ xs"
    using mem assms(2) by (intro dropWhile_append1) auto
  show ne: "dropWhile (\<lambda>c. c = apostrophe) cs \<noteq> []"
    using mem assms(2) by (auto simp: dropWhile_eq_Nil_conv)
  show "last (dropWhile (\<lambda>c. c = apostrophe) cs) = last cs"
    using ne by (metis last_appendR takeWhile_dropWhile_id)
qed

definition clean_end :: "string \<Rightarrow> bool" where
  "clean_end pre = (pre = [] \<or> (\<not> is_letter (last pre) \<and> last pre \<noteq> apostrophe))"

definition single_tok :: "char \<Rightarrow> token option" where
  "single_tok ch =
     (if ch = CHR ''0'' \<or> ch = CHR ''1'' then Some (NUM (if ch = CHR ''1'' then 1 else 0))
      else if ch = CHR ''('' then Some LP
      else if ch = CHR '')'' then Some RP
      else if ch = CHR ''!'' \<or> ch = CHR ''~'' then Some prefixNOT
      else if ch \<in> set ''&*+|^'' then Some (binaryOp ch)
      else None)"

lemma tokenize_from_nonletter:
  "\<not> is_letter ch \<Longrightarrow>
   tokenize_from i (ch # cs) =
     (case single_tok ch of None \<Rightarrow> Inl (LexError i ch)
      | Some t \<Rightarrow> push_tok t (tokenize_from (i + 1) cs))"
  by (simp add: single_tok_def)

lemma tokenize_from_letter:
  "is_letter ch \<Longrightarrow>
   tokenize_from i (ch # cs) =
     push_tok (VAR [toUpperCase ch])
       (if length (takeWhile (\<lambda>c. c = apostrophe) cs) mod 2 = 1
        then push_tok postfixNOT
               (tokenize_from (i + 1 + length (takeWhile (\<lambda>c. c = apostrophe) cs))
                  (dropWhile (\<lambda>c. c = apostrophe) cs))
        else tokenize_from (i + 1 + length (takeWhile (\<lambda>c. c = apostrophe) cs))
               (dropWhile (\<lambda>c. c = apostrophe) cs))"
  by (auto simp: is_letter_def Let_def)

lemma tokenize_from_misplaced:
  "clean_end pre \<Longrightarrow>
   tokenize_from i (pre @ apostrophe # rest) =
     (case tokenize_from i pre of Inl e \<Rightarrow> Inl e
      | Inr ts \<Rightarrow> Inl (LexError (i + length pre) apostrophe))"
proof (induction "length pre" arbitrary: i pre rule: less_induct)
  case less
  let ?P = "\<lambda>c. c = apostrophe"
  show ?case
  proof (cases pre)
    case Nil
    then show ?thesis by simp
  next
    case (Cons ch cs)
    show ?thesis
    proof (cases "is_letter ch")
      case True
      with less.prems Cons have ne: "cs \<noteq> []" and la: "last cs \<noteq> apostrophe"
        and nl: "\<not> is_letter (last cs)"
        by (auto simp: clean_end_def split: if_splits)
      note sp = last_not_apostrophe_split[OF ne la]
      have ce: "clean_end (dropWhile ?P cs)"
        using sp(3,4) la nl by (simp add: clean_end_def)
      have len: "length (takeWhile ?P cs) + length (dropWhile ?P cs) = length cs"
        by (metis length_append takeWhile_dropWhile_id)
      have "length (dropWhile ?P cs) < length pre"
        using len Cons by simp
      from less.hyps[OF this ce, of "i + 1 + length (takeWhile ?P cs)"] len
      show ?thesis
        unfolding Cons append_Cons tokenize_from_letter[OF True] sp(1,2)
        by (simp split: sum.splits)
    next
      case False
      have ce: "clean_end cs" using less.prems Cons by (auto simp: clean_end_def split: if_splits)
      have "length cs < length pre" using Cons by simp
      from less.hyps[OF this ce, of "i + 1"]
      show ?thesis
        unfolding Cons append_Cons tokenize_from_nonletter[OF False]
        by (simp split: sum.splits option.splits)
    qed
  qed
qed

lemma strip_ws_letter_run:
  "is_letter c \<Longrightarrow> strip_ws (c # replicate k apostrophe) = c # replicate k apostrophe"
  by (auto simp: strip_ws_def is_space_def is_letter_def apostrophe_def Let_def)

text \<open>Every \<^verbatim>\<open>VAR\<close> token of the tokenizer is named by one upper-case letter.\<close>

lemma upperLetter_toUpperCase: "is_letter c \<Longrightarrow> upperLetter (toUpperCase c)"
  by (auto simp: is_letter_def upperLetter_def toUpperCase_def Let_def)

lemma tokenize_from_var_names:
  "tokenize_from i s = Inr ts \<Longrightarrow> VAR v \<in> set ts \<Longrightarrow> \<exists>c. v = [c] \<and> upperLetter c"
proof (induction i s arbitrary: ts rule: tokenize_from.induct)
  case (1 i)
  then show ?case by simp
next
  case (2 i ch cs)
  let ?k = "length (takeWhile (\<lambda>c. c = apostrophe) cs)"
  let ?rest = "dropWhile (\<lambda>c. c = apostrophe) cs"
  show ?case
  proof (cases "is_letter ch")
    case True
    then have n01: "\<not> (ch = CHR ''0'' \<or> ch = CHR ''1'')" by (auto simp: is_letter_def)
    from "2.prems"(1) have "\<exists>ts'. tokenize_from (i + 1 + ?k) ?rest = Inr ts' \<and>
        set ts \<subseteq> {VAR [toUpperCase ch], postfixNOT} \<union> set ts'"
      unfolding tokenize_from_letter[OF True]
      by (auto simp: push_tok_Inr_iff split: if_splits)
    then obtain ts' where ts': "tokenize_from (i + 1 + ?k) ?rest = Inr ts'"
      and sub: "set ts \<subseteq> {VAR [toUpperCase ch], postfixNOT} \<union> set ts'"
      by blast
    from "2.prems"(2) sub have "v = [toUpperCase ch] \<or> VAR v \<in> set ts'"
      by (auto simp: postfixNOT_def)
    then show ?thesis
    proof
      assume "v = [toUpperCase ch]"
      then show ?thesis using upperLetter_toUpperCase[OF True] by blast
    next
      assume in': "VAR v \<in> set ts'"
      show ?thesis
      proof (cases "?k mod 2 = 1")
        case odd: True
        from "2.IH"(2)[OF n01 True refl refl odd ts' in'] show ?thesis .
      next
        case even: False
        from "2.IH"(3)[OF n01 True refl refl even ts' in'] show ?thesis .
      qed
    qed
  next
    case False
    from "2.prems"(1) have "\<exists>t ts'. single_tok ch = Some t \<and>
        tokenize_from (i + 1) cs = Inr ts' \<and> ts = t # ts'"
      unfolding tokenize_from_nonletter[OF False]
      by (auto simp: push_tok_Inr_iff split: option.splits)
    then obtain t ts' where st: "single_tok ch = Some t"
      and ts': "tokenize_from (i + 1) cs = Inr ts'" and ts: "ts = t # ts'"
      by blast
    have nv: "t \<noteq> VAR v" using st
      by (auto simp: single_tok_def prefixNOT_def binaryOp_def Let_def split: if_splits)
    with "2.prems"(2) ts have in': "VAR v \<in> set ts'" by auto
    show ?thesis
    proof (cases "ch = CHR ''0'' \<or> ch = CHR ''1''")
      case True
      from "2.IH"(1)[OF True ts' in'] show ?thesis .
    next
      case n01: False
      show ?thesis
      proof (cases "ch = CHR ''(''")
        case True
        from "2.IH"(4)[OF n01 False True ts' in'] show ?thesis .
      next
        case nlp: False
        show ?thesis
        proof (cases "ch = CHR '')''")
          case True
          from "2.IH"(5)[OF n01 False nlp True ts' in'] show ?thesis .
        next
          case nrp: False
          show ?thesis
          proof (cases "ch = CHR ''!'' \<or> ch = CHR ''~''")
            case True
            from "2.IH"(6)[OF n01 False nlp nrp True ts' in'] show ?thesis .
          next
            case nn: False
            have "ch \<in> set ''&*+|^''" using st n01 nlp nrp nn
              by (auto simp: single_tok_def split: if_splits)
            from "2.IH"(7)[OF n01 False nlp nrp nn this ts' in'] show ?thesis .
          qed
        qed
      qed
    qed
  qed
qed

lemma tokenize_var_names:
  "tokenize raw = Inr ts \<Longrightarrow> VAR v \<in> set ts \<Longrightarrow> \<exists>c. v = [c] \<and> upperLetter c"
  unfolding tokenize_def by (rule tokenize_from_var_names)

text \<open>There are 26 such names, so a list of distinct ones has at most 26 entries.\<close>

lemma upper_names_bound:
  assumes "distinct vars" "\<forall>v \<in> set vars. \<exists>c. v = [c] \<and> upperLetter c"
  shows "length vars \<le> 26"
proof -
  have "set vars \<subseteq> (\<lambda>k. [char_of k]) ` {65..90::nat}"
  proof
    fix v assume "v \<in> set vars"
    with assms(2) obtain c where c: "v = [c]" "upperLetter c" by blast
    have "v = [char_of (of_char c :: nat)]" using c(1) by simp
    moreover have "(of_char c :: nat) \<in> {65..90}" using c(2) by (simp add: upperLetter_def)
    ultimately show "v \<in> (\<lambda>k. [char_of k]) ` {65..90::nat}" by blast
  qed
  then have "card (set vars) \<le> card ((\<lambda>k. [char_of k]) ` {65..90::nat})"
    by (intro card_mono) simp_all
  also have "\<dots> \<le> card {65..90::nat}" by (rule card_image_le) simp
  finally show ?thesis using assms(1) by (simp add: distinct_card)
qed

text \<open>
  Claim C10. Let the input, once its whitespace is stripped, hold an apostrophe that is
  not part of a run of apostrophes directly after a letter: it stands first, or the
  character before it is neither a letter nor an apostrophe (a digit, a right
  parenthesis, an operator). Then tokenizing fails; when everything before the
  apostrophe tokenizes, the error is the \<open>LexError\<close> of that apostrophe with its index
  in the stripped input. A run of apostrophes directly after a letter is accepted.
\<close>

theorem tokenize_apostrophe:
  "(strip_ws raw = pre @ apostrophe # rest \<longrightarrow>
    (pre = [] \<or> (\<not> is_letter (last pre) \<and> last pre \<noteq> apostrophe)) \<longrightarrow>
      (\<exists>e. tokenize raw = Inl e) \<and>
      (\<forall>ts. tokenize_from 0 pre = Inr ts \<longrightarrow>
         tokenize raw = Inl (LexError (length pre) apostrophe))) \<and>
   (strip_ws raw' = apostrophe # rest' \<longrightarrow> tokenize raw' = Inl (LexError 0 apostrophe)) \<and>
   (is_letter c \<longrightarrow>
      tokenize (c # replicate k apostrophe) =
        Inr (VAR [toUpperCase c] # (if k mod 2 = 1 then [postfixNOT] else [])))"
proof (intro conjI impI)
  assume h: "strip_ws raw = pre @ apostrophe # rest"
    "pre = [] \<or> (\<not> is_letter (last pre) \<and> last pre \<noteq> apostrophe)"
  then have ce: "clean_end pre" by (simp add: clean_end_def)
  show "\<exists>e. tokenize raw = Inl e"
    unfolding tokenize_def h(1) tokenize_from_misplaced[OF ce] by (simp split: sum.splits)
  show "\<forall>ts. tokenize_from 0 pre = Inr ts \<longrightarrow>
         tokenize raw = Inl (LexError (length pre) apostrophe)"
    unfolding tokenize_def h(1) tokenize_from_misplaced[OF ce] by simp
next
  assume "strip_ws raw' = apostrophe # rest'"
  then show "tokenize raw' = Inl (LexError 0 apostrophe)"
    by (simp add: tokenize_def)
next
  assume l: "is_letter c"
  have tw: "takeWhile (\<lambda>c. c = apostrophe) (replicate k apostrophe) = replicate k apostrophe"
    "dropWhile (\<lambda>c. c = apostrophe) (replicate k apostrophe) = []"
    by simp_all
  show "tokenize (c # replicate k apostrophe) =
        Inr (VAR [toUpperCase c] # (if k mod 2 = 1 then [postfixNOT] else []))"
    unfolding tokenize_def strip_ws_letter_run[OF l] tokenize_from_letter[OF l] tw
    by simp
qed

theorem tokenize_apostrophe_witness:
  "(\<exists>e. tokenize (''(A+B)'' @ [apostrophe]) = Inl e) \<and>
   tokenize (''(A+B)'' @ [apostrophe]) = Inl (LexError 5 apostrophe) \<and>
   tokenize (apostrophe # '' A'') = Inl (LexError 0 apostrophe) \<and>
   tokenize (CHR ''A'' # replicate 3 apostrophe) = Inr [VAR ''A'', postfixNOT]"
  using tokenize_apostrophe[where raw = "''(A+B)'' @ [apostrophe]" and pre = "''(A+B)''"
      and rest = "[]" and raw' = "apostrophe # '' A''" and rest' = "''A''"
      and c = "CHR ''A''" and k = 3]
  by (simp add: strip_ws_def is_space_def is_letter_def toUpperCase_def apostrophe_def binaryOp_def)

section \<open>Worked examples and degenerate cases\<close>

text \<open>
  Claim C9. \<^verbatim>\<open>AB'+C\<close> tokenizes to \<open>A\<close>, \<open>B\<close>, postfix \<open>NOT\<close>, \<open>OR\<close>, \<open>C\<close>; the parser
  puts one implicit \<open>AND\<close> between \<open>A\<close> and \<open>B\<close> and returns the postfix sequence
  \<open>A B NOT AND C OR\<close>; that sequence evaluates to 1 under \<open>A = 1\<close>, \<open>B = 0\<close>, \<open>C = 0\<close>.
\<close>

theorem example_AB_not_or_C:
  "tokenize ''AB'+C'' =
     Inr [VAR ''A'', VAR ''B'', postfixNOT,
          OP \<lparr>value = ''OR'', unary = False, postfix = False, precedence = 1,
              associativity = ''left'', implicit = False\<rparr>,
          VAR ''C''] \<and>
   insertImplicit
      [VAR ''A'', VAR ''B'', postfixNOT,
       OP \<lparr>value = ''OR'', unary = False, postfix = False, precedence = 1,
           associativity = ''left'', implicit = False\<rparr>,
       VAR ''C''] =
     [VAR ''A'', implicitAND, VAR ''B'', postfixNOT,
      OP \<lparr>value = ''OR'', unary = False, postfix = False, precedence = 1,
          associativity = ''left'', implicit = False\<rparr>,
      VAR ''C''] \<and>
   toRPN
      [VAR ''A'', VAR ''B'', postfixNOT,
       OP \<lparr>value = ''OR'', unary = False, postfix = False, precedence = 1,
           associativity = ''left'', implicit = False\<rparr>,
       VAR ''C''] =
     Inr [VAR ''A'', VAR ''B'', postfixNOT, implicitAND, VAR ''C'',
          OP \<lparr>value = ''OR'', unary = False, postfix = False, precedence = 1,
              associativity = ''left'', implicit = False\<rparr>] \<and>
   evalRPN
      [VAR ''A'', VAR ''B'', postfixNOT, implicitAND, VAR ''C'',
       OP \<lparr>value = ''OR'', unary = False, postfix = False, precedence = 1,
           associativity = ''left'', implicit = False\<rparr>]
      [''A'' \<mapsto> 1, ''B'' \<mapsto> 0, ''C'' \<mapsto> 0] = Inr 1"
  by code_simp

text \<open>
  Claim C8. With no minterms and no don't-cares the minimizer returns no implicants
  and the text \<^verbatim>\<open>0\<close> in SOP mode, \<^verbatim>\<open>1\<close> in POS mode; an empty list of implicants
  renders as \<^verbatim>\<open>0\<close> in SOP and \<^verbatim>\<open>1\<close> in POS; an implicant of dashes only renders as
  the term \<^verbatim>\<open>1\<close> in SOP, alone or among other terms.
\<close>

theorem degenerate_cases:
  "qmSimplify [] [] vars ''SOP'' = \<lparr>implicants = [], result = ''0''\<rparr> \<and>
   qmSimplify [] [] vars ''POS'' = \<lparr>implicants = [], result = ''1''\<rparr> \<and>
   implicantsToSOP [] vars = ''0'' \<and>
   implicantsToPOS [] vars = ''1'' \<and>
   sopTerm vars (replicate k (CHR ''-'')) = ''1'' \<and>
   implicantsToSOP [replicate k (CHR ''-'')] vars = ''1'' \<and>
   implicantsToSOP (replicate k (CHR ''-'') # y # ys) vars =
     ''1 + '' @ implicantsToSOP (y # ys) vars"
proof -
  have "sopLoop (replicate k (CHR ''-'')) vars i s = s" for i s
    by (induction k arbitrary: i) simp_all
  then have "sopTerm vars (replicate k (CHR ''-'')) = ''1''"
    by (simp add: sopTerm_def)
  then show ?thesis
    by (simp add: qmSimplify_def implicantsToSOP_def implicantsToPOS_def)
qed

section \<open>Gray-code adjacency of the K-map layout\<close>

lemmas idx_eval =
  kmapLayoutForVars_def GRAY2_def GRAY4_def arrayGet_def and32_def sar32_def shl32_def
  or32_def toInt32_def




lemma filter_eq_upt: "filter (\<lambda>i. i = k) [0..<n] = (if k < n then [k] else [])"
  by (induction n) auto

lemma xor_pow2_differ:
  assumes "a XOR b = 2 ^ k" "k < 32"
  shows "differInOneBit (Some a) (Some b)"
proof -
  have "(bit a i \<noteq> bit b i) = (i = k)" for i
  proof -
    have "(bit a i \<noteq> bit b i) = bit (a XOR b) i" by (simp add: bit_xor_iff)
    also have "\<dots> = (i = k)" unfolding assms(1) by (auto simp: bit_exp_iff)
    finally show ?thesis .
  qed
  then have "filter (\<lambda>i. bit a i \<noteq> bit b i) [0..<32] = filter (\<lambda>i. i = k) [0..<32]"
    by simp
  also have "\<dots> = [k]" using assms(2)
    by (simp only: filter_eq_upt if_True)
  finally show ?thesis by (simp add: differInOneBit_def)
qed

lemma differ_small:
  "a XOR b = 1 \<or> a XOR b = 2 \<or> a XOR b = 4 \<or> a XOR b = 8 \<Longrightarrow> differInOneBit (Some a) (Some b)"
  using xor_pow2_differ[of a b 0] xor_pow2_differ[of a b 1] xor_pow2_differ[of a b 2]
    xor_pow2_differ[of a b 3]
  by auto


lemma kmap1:
  assumes "kmapLayoutForVars 1 = Some l" "r < length (rows l)" "c < length (cols l)"
  shows "adjacentOK l r c"
proof -
  have l: "l = the (kmapLayoutForVars 1)" using assms(1) by simp
  have dims: "length (rows l) = 2" "length (cols l) = 1"
    unfolding l by (simp_all add: kmapLayoutForVars_def)
  have tab: "map (\<lambda>r. index l r 0) [0, 1] = [Some 0, Some 1]"
    unfolding l by (simp add: idx_eval)
  have cells: "\<forall>r \<in> set [0, 1]. adjacentOK l r 0"
    using tab by (auto simp: adjacentOK_def dims numeral_2_eq_2[symmetric] intro!: differ_small)
  have "r \<in> set [0, 1]" "c = 0" using assms(2,3) dims by auto
  with cells show ?thesis by blast
qed

lemma kmap2:
  assumes "kmapLayoutForVars 2 = Some l" "r < length (rows l)" "c < length (cols l)"
  shows "adjacentOK l r c"
proof -
  have l: "l = the (kmapLayoutForVars 2)" using assms(1) by simp
  have dims: "length (rows l) = 2" "length (cols l) = 2"
    unfolding l by (simp_all add: kmapLayoutForVars_def GRAY2_def)
  have tab: "map (\<lambda>r. map (index l r) [0, 1]) [0, 1] = [[Some 0, Some 1], [Some 2, Some 3]]"
    unfolding l by (simp add: idx_eval)
  have cells: "\<forall>r \<in> set [0, 1]. \<forall>c \<in> set [0, 1]. adjacentOK l r c"
    using tab by (auto simp: adjacentOK_def dims numeral_2_eq_2[symmetric] intro!: differ_small)
  have "r \<in> set [0, 1]" "c \<in> set [0, 1]" using assms(2,3) dims by auto
  with cells show ?thesis by blast
qed

lemma kmap3:
  assumes "kmapLayoutForVars 3 = Some l" "r < length (rows l)" "c < length (cols l)"
  shows "adjacentOK l r c"
proof -
  have l: "l = the (kmapLayoutForVars 3)" using assms(1) by simp
  have dims: "length (rows l) = 2" "length (cols l) = 4"
    unfolding l by (simp_all add: kmapLayoutForVars_def GRAY2_def GRAY4_def)
  have tab: "map (\<lambda>r. map (index l r) [0, 1, 2, 3]) [0, 1] =
      [[Some 0, Some 1, Some 3, Some 2], [Some 4, Some 5, Some 7, Some 6]]"
    unfolding l by (simp add: idx_eval)
  have cells: "\<forall>r \<in> set [0, 1]. \<forall>c \<in> set [0, 1, 2, 3]. adjacentOK l r c"
    using tab by (auto simp: adjacentOK_def dims numeral_2_eq_2[symmetric] intro!: differ_small)
  have "r \<in> set [0, 1]" "c \<in> set [0, 1, 2, 3]" using assms(2,3) dims by auto
  with cells show ?thesis by blast
qed

lemma kmap4:
  assumes "kmapLayoutForVars 4 = Some l" "r < length (rows l)" "c < length (cols l)"
  shows "adjacentOK l r c"
proof -
  have l: "l = the (kmapLayoutForVars 4)" using assms(1) by simp
  have dims: "length (rows l) = 4" "length (cols l) = 4"
    unfolding l by (simp_all add: kmapLayoutForVars_def GRAY4_def)
  have tab: "map (\<lambda>r. map (index l r) [0, 1, 2, 3]) [0, 1, 2, 3] =
      [[Some 0, Some 1, Some 3, Some 2], [Some 4, Some 5, Some 7, Some 6],
       [Some 12, Some 13, Some 15, Some 14], [Some 8, Some 9, Some 11, Some 10]]"
    unfolding l by (simp add: idx_eval)
  have cells: "\<forall>r \<in> set [0, 1, 2, 3]. \<forall>c \<in> set [0, 1, 2, 3]. adjacentOK l r c"
    using tab by (auto simp: adjacentOK_def dims numeral_2_eq_2[symmetric] intro!: differ_small)
  have "r \<in> set [0, 1, 2, 3]" "c \<in> set [0, 1, 2, 3]" using assms(2,3) dims by auto
  with cells show ?thesis by blast
qed


lemma differInOneBit_card:
  assumes "0 \<le> a" "a < 2 ^ 32" "0 \<le> b" "b < 2 ^ 32"
  shows "differInOneBit (Some a) (Some b) \<longleftrightarrow> card {i. bit a i \<noteq> bit b i} = 1"
proof -
  have hi: "\<not> bit x i" if "0 \<le> x" "x < 2 ^ 32" "32 \<le> i" for x :: int and i
  proof -
    have "take_bit 32 x = x" using that(1,2) by (simp add: take_bit_int_eq_self)
    then have "bit x i = bit (take_bit 32 x) i" by simp
    also have "\<dots> = False" using that(3) by (simp add: bit_take_bit_iff)
    finally show ?thesis by simp
  qed
  let ?xs = "filter (\<lambda>i. bit a i \<noteq> bit b i) [0..<32]"
  have "{i. bit a i \<noteq> bit b i} = set ?xs"
    using hi[OF assms(1,2)] hi[OF assms(3,4)] by (auto simp: not_le[symmetric])
  moreover have "distinct ?xs" by simp
  then have "card (set ?xs) = length ?xs" by (rule distinct_card)
  ultimately have "card {i. bit a i \<noteq> bit b i} = length ?xs"
    by (simp only:)
  then show ?thesis by (simp add: differInOneBit_def)
qed

text \<open>
  Claim C6. For 1 to 4 variables the layout exists, and for every cell of its grid the
  cell below it (the first row after the last) and the cell to its right (the first
  column after the last) hold minterm indices that differ in exactly one bit. The row
  neighbour is compared when the grid has more than one row, the column neighbour when
  it has more than one column: with a single column (one variable) a cell has no column
  neighbour other than itself.
\<close>

theorem kmap_gray_adjacency:
  assumes "n \<in> {1, 2, 3, 4}"
  shows "\<exists>l. kmapLayoutForVars n = Some l \<and>
     (\<forall>r c. r < length (rows l) \<longrightarrow> c < length (cols l) \<longrightarrow>
        (1 < length (rows l) \<longrightarrow>
           differInOneBit (index l r c) (index l ((r + 1) mod length (rows l)) c)) \<and>
        (1 < length (cols l) \<longrightarrow>
           differInOneBit (index l r c) (index l r ((c + 1) mod length (cols l)))))"
proof -
  obtain l where l: "kmapLayoutForVars n = Some l"
    using assms by (auto simp: kmapLayoutForVars_def)
  have "adjacentOK l r c" if "r < length (rows l)" "c < length (cols l)" for r c
    using assms l that kmap1 kmap2 kmap3 kmap4 by auto
  then show ?thesis using l unfolding adjacentOK_def by blast
qed

theorem kmap_gray_adjacency_witness:
  "kmapLayoutForVars 4 \<noteq> None \<and>
   index (the (kmapLayoutForVars 4)) 3 2 = Some 11 \<and>
   index (the (kmapLayoutForVars 4)) 0 2 = Some 3 \<and>
   index (the (kmapLayoutForVars 4)) 3 3 = Some 10 \<and>
   differInOneBit (index (the (kmapLayoutForVars 4)) 3 2) (index (the (kmapLayoutForVars 4)) 0 2) \<and>
   differInOneBit (index (the (kmapLayoutForVars 4)) 3 2) (index (the (kmapLayoutForVars 4)) 3 3)"
proof -
  have "(4::nat) \<in> {1, 2, 3, 4}" by simp
  from kmap_gray_adjacency[OF this] obtain l where l: "kmapLayoutForVars 4 = Some l"
    and adj: "\<And>r c. r < length (rows l) \<Longrightarrow> c < length (cols l) \<Longrightarrow>
        (1 < length (rows l) \<longrightarrow>
           differInOneBit (index l r c) (index l ((r + 1) mod length (rows l)) c)) \<and>
        (1 < length (cols l) \<longrightarrow>
           differInOneBit (index l r c) (index l r ((c + 1) mod length (cols l))))"
    by blast
  have l': "l = the (kmapLayoutForVars 4)" using l by simp
  have dims: "length (rows l) = 4" "length (cols l) = 4"
    unfolding l' by (simp_all add: kmapLayoutForVars_def GRAY4_def)
  have idx: "index l 3 2 = Some 11" "index l 0 2 = Some 3" "index l 3 3 = Some 10"
    unfolding l' by (simp_all add: idx_eval)
  from adj[of 3 2] dims
  have "differInOneBit (index l 3 2) (index l 0 2)" "differInOneBit (index l 3 2) (index l 3 3)"
    by simp_all
  moreover have "kmapLayoutForVars 4 \<noteq> None" using l by simp
  ultimately show ?thesis using idx unfolding l' by simp
qed

section \<open>Rows of the truth table\<close>

lemma sint_small: "0 \<le> x \<Longrightarrow> x < 2 ^ 31 \<Longrightarrow> sint (word_of_int x :: 32 word) = x"
  by (simp add: int_word_sint)

lemma shl32_one:
  assumes "n \<le> 30"
  shows "shl32 (Some 1) n = 2 ^ n"
proof -
  have "(2::int) ^ n \<le> 2 ^ 30" using assms by (intro power_increasing) simp_all
  then have lt: "(2::int) ^ n < 2 ^ 31" by simp
  have "sint (push_bit n (1 :: 32 word)) = sint (word_of_int (2 ^ n) :: 32 word)"
    by (simp add: word_of_int_2p)
  also have "\<dots> = 2 ^ n" using lt by (intro sint_small) simp_all
  finally show ?thesis using assms by (simp add: shl32_def toInt32_def)
qed

lemma sar32_nat:
  assumes "mm < 2 ^ 31" "k < 32"
  shows "sar32 (Some (int mm)) k = int (mm div 2 ^ k)"
proof -
  have "int mm < 2 ^ 31" using assms(1) by (metis of_nat_less_iff of_nat_numeral of_nat_power)
  then have "sint (word_of_int (int mm) :: 32 word) = int mm"
    by (intro sint_small) simp_all
  then show ?thesis using assms(2)
    by (simp add: sar32_def toInt32_def sint_signed_drop_bit_eq drop_bit_eq_div zdiv_int)
qed

lemma and32_one:
  assumes "0 \<le> x" "x < 2 ^ 31"
  shows "and32 (Some x) (Some 1) = x mod 2"
proof -
  have "(word_of_int x :: 32 word) AND 1 = word_of_int (x mod 2)"
    by (simp add: and_one_eq even_of_int_iff mod_2_eq_odd flip: even_iff_mod_2_eq_zero)
  moreover have "sint (word_of_int (x mod 2) :: 32 word) = x mod 2"
  proof (rule sint_small)
    show "0 \<le> x mod 2" by simp
    have "x mod 2 < 2" by simp
    moreover have "(2::int) \<le> 2 ^ 31" by simp
    ultimately show "x mod 2 < 2 ^ 31" by (rule less_le_trans)
  qed
  ultimately show ?thesis by (simp add: and32_def toInt32_def)
qed

lemma env_bit:
  assumes "mm < 2 ^ 30" "k < 30"
  shows "and32 (Some (sar32 (Some (int mm)) k)) (Some 1) = (if bit mm k then 1 else 0)"
proof -
  have "mm < 2 ^ 31" using assms(1) by simp
  then have s: "sar32 (Some (int mm)) k = int (mm div 2 ^ k)"
    using assms(2) by (intro sar32_nat) simp_all
  have "mm div 2 ^ k \<le> mm" by simp
  then have "int (mm div 2 ^ k) < 2 ^ 31" using \<open>mm < 2 ^ 31\<close>
    by (metis le_less_trans of_nat_less_iff of_nat_numeral of_nat_power)
  then have "and32 (Some (int (mm div 2 ^ k))) (Some 1) = int (mm div 2 ^ k) mod 2"
    by (intro and32_one) simp_all
  then show ?thesis unfolding s
    by (simp add: bit_iff_odd mod_2_eq_odd flip: zmod_int)
qed


lemma fold_upd_other:
  "v \<notin> (\<lambda>i. vars ! i) ` set js \<Longrightarrow> fold (\<lambda>i e. e(vars ! i \<mapsto> f i)) js e0 v = e0 v"
  by (induction js arbitrary: e0) auto

lemma fold_upd_distinct:
  "distinct (map (\<lambda>i. vars ! i) js) \<Longrightarrow> j \<in> set js \<Longrightarrow>
   fold (\<lambda>i e. e(vars ! i \<mapsto> f i)) js e0 (vars ! j) = Some (f j)"
proof (induction js arbitrary: e0)
  case Nil
  then show ?case by simp
next
  case (Cons a js)
  show ?case
  proof (cases "j = a")
    case True
    have notin: "vars ! a \<notin> (\<lambda>i. vars ! i) ` set js" using Cons.prems(1) by auto
    show ?thesis unfolding True
      by (simp only: fold_simps fold_upd_other[OF notin] fun_upd_same)
  next
    case False
    then show ?thesis using Cons by auto
  qed
qed

lemma fold_upd_dom:
  "dom (fold (\<lambda>i e. e(vars ! i \<mapsto> f i)) js e0) = dom e0 \<union> (\<lambda>i. vars ! i) ` set js"
  by (induction js arbitrary: e0) auto

lemma buildEnv_dom: "dom (buildEnv vars mm) = set vars"
  unfolding buildEnv_def fold_upd_dom by (simp add: nth_image)

lemma buildEnv_bit:
  assumes "length vars \<le> 30" "distinct vars" "i < length vars" "mm < 2 ^ length vars"
  shows "buildEnv vars mm (vars ! i) = Some (if bit mm (length vars - 1 - i) then 1 else 0)"
proof -
  have d: "distinct (map (\<lambda>i. vars ! i) [0..<length vars])"
    using assms(2) by (simp add: map_nth)
  have "(2::nat) ^ length vars \<le> 2 ^ 30" using assms(1) by (intro power_increasing) simp_all
  then have m: "mm < 2 ^ 30" using assms(4) by simp
  have k: "length vars - 1 - i < 30" using assms(1,3) by simp
  have i: "i \<in> set [0..<length vars]" using assms(3) by simp
  show ?thesis
    unfolding buildEnv_def
      fold_upd_distinct[OF d i, of "\<lambda>i. and32 (Some (sar32 (Some (int mm)) (length vars - 1 - i))) (Some 1)"]
    using env_bit[OF m k] by simp
qed

lemma tableRows_None:
  "tableRows vars None ms =
     Inr (map (\<lambda>mm. \<lparr>rowM = mm, rowEnv = buildEnv vars mm, rowY = 0\<rparr>) ms)"
  by (induction ms) simp_all

lemma tableRows_Some_ok:
  "(\<And>mm. mm \<in> set ms \<Longrightarrow> \<exists>yy. evalRPN rpn (buildEnv vars mm) = Inr yy) \<Longrightarrow>
   tableRows vars (Some rpn) ms =
     Inr (map (\<lambda>mm. \<lparr>rowM = mm, rowEnv = buildEnv vars mm,
                      rowY = projr (evalRPN rpn (buildEnv vars mm))\<rparr>) ms)"
proof (induction ms)
  case Nil
  then show ?case by simp
next
  case (Cons a ms)
  from Cons.prems[of a] obtain yy where "evalRPN rpn (buildEnv vars a) = Inr yy" by auto
  moreover have "tableRows vars (Some rpn) ms =
     Inr (map (\<lambda>mm. \<lparr>rowM = mm, rowEnv = buildEnv vars mm,
                      rowY = projr (evalRPN rpn (buildEnv vars mm))\<rparr>) ms)"
    using Cons.prems by (intro Cons.IH) auto
  ultimately show ?case by simp
qed

lemma tableRows_Some_error:
  "(\<And>k. k \<in> set pre \<Longrightarrow> \<exists>yy. evalRPN rpn (buildEnv vars k) = Inr yy) \<Longrightarrow>
   evalRPN rpn (buildEnv vars mm) = Inl e \<Longrightarrow>
   tableRows vars (Some rpn) (pre @ mm # post) = Inl e"
proof (induction pre)
  case Nil
  then show ?case by simp
next
  case (Cons a pre)
  from Cons.prems(1)[of a] obtain yy where "evalRPN rpn (buildEnv vars a) = Inr yy" by auto
  moreover have "tableRows vars (Some rpn) (pre @ mm # post) = Inl e"
    using Cons.prems by (intro Cons.IH) auto
  ultimately show ?case by simp
qed

lemma total_rows: "length vars \<le> 30 \<Longrightarrow> nat (shl32 (Some 1) (length vars)) = 2 ^ length vars"
  by (simp add: shl32_one nat_power_eq)

text \<open>
  Claim C5, as the code has it. For pairwise distinct variables, each one upper-case
  letter (at most 26 of them, so that \<^verbatim>\<open>1 << n\<close> is \<open>2 ^ n\<close>), \<open>buildTruthTable\<close> returns
  the \<open>2 ^ n\<close> rows \<open>m = 0, ..., 2 ^ n - 1\<close> in order, each with the environment that
  gives the \<open>i\<close>-th variable bit \<open>n - 1 - i\<close> of \<open>m\<close> (and binds the variables of the
  list only); without an expression every output is 0; with an expression the output
  is the evaluator's result, provided every row evaluates; the first row that fails
  makes the whole call fail with that error (stated for expressions whose variable
  tokens are named by upper-case letters).
\<close>

theorem buildTruthTable_rows:
  assumes "distinct vars" "\<forall>v \<in> set vars. \<exists>c. v = [c] \<and> upperLetter c"
  shows
   "buildTruthTable vars None =
      Inr (map (\<lambda>mm. \<lparr>rowM = mm, rowEnv = buildEnv vars mm, rowY = 0\<rparr>) [0..<2 ^ length vars]) \<and>
    ((\<forall>mm < 2 ^ length vars. \<exists>yy. evalRPN rpn (buildEnv vars mm) = Inr yy) \<longrightarrow>
      buildTruthTable vars (Some rpn) =
        Inr (map (\<lambda>mm. \<lparr>rowM = mm, rowEnv = buildEnv vars mm,
                         rowY = projr (evalRPN rpn (buildEnv vars mm))\<rparr>) [0..<2 ^ length vars])) \<and>
    ((\<forall>x. VAR x \<in> set rpn' \<longrightarrow> (\<exists>c. x = [c] \<and> upperLetter c)) \<longrightarrow>
      k < 2 ^ length vars \<longrightarrow> evalRPN rpn' (buildEnv vars k) = Inl e \<longrightarrow>
      (\<forall>mm < k. \<exists>yy. evalRPN rpn' (buildEnv vars mm) = Inr yy) \<longrightarrow>
      buildTruthTable vars (Some rpn') = Inl e) \<and>
    (\<forall>mm < 2 ^ length vars. dom (buildEnv vars mm) = set vars \<and>
       (\<forall>i < length vars.
          buildEnv vars mm (vars ! i) = Some (if bit mm (length vars - 1 - i) then 1 else 0)))"
proof -
  have "length vars \<le> 26" by (rule upper_names_bound[OF assms])
  then have n: "length vars \<le> 30" by simp
  show ?thesis
  proof (intro conjI impI allI)
    show "buildTruthTable vars None =
        Inr (map (\<lambda>mm. \<lparr>rowM = mm, rowEnv = buildEnv vars mm, rowY = 0\<rparr>) [0..<2 ^ length vars])"
      by (simp add: buildTruthTable_def total_rows[OF n] tableRows_None)
  next
    assume "\<forall>mm < 2 ^ length vars. \<exists>yy. evalRPN rpn (buildEnv vars mm) = Inr yy"
    then have "tableRows vars (Some rpn) [0..<2 ^ length vars] =
          Inr (map (\<lambda>mm. \<lparr>rowM = mm, rowEnv = buildEnv vars mm,
                           rowY = projr (evalRPN rpn (buildEnv vars mm))\<rparr>) [0..<2 ^ length vars])"
      by (intro tableRows_Some_ok) auto
    then show "buildTruthTable vars (Some rpn) =
          Inr (map (\<lambda>mm. \<lparr>rowM = mm, rowEnv = buildEnv vars mm,
                           rowY = projr (evalRPN rpn (buildEnv vars mm))\<rparr>) [0..<2 ^ length vars])"
      by (simp add: buildTruthTable_def total_rows[OF n])
  next
    assume k: "k < 2 ^ length vars" and e: "evalRPN rpn' (buildEnv vars k) = Inl e"
      and ok: "\<forall>mm < k. \<exists>yy. evalRPN rpn' (buildEnv vars mm) = Inr yy"
    have "[0..<2 ^ length vars] = [0..<k] @ k # [Suc k..<2 ^ length vars]"
      using k by (metis le0 upt_conv_Cons upt_add_eq_append le_add_diff_inverse less_imp_le_nat add_0)
    moreover have "tableRows vars (Some rpn') ([0..<k] @ k # [Suc k..<2 ^ length vars]) = Inl e"
      using ok e by (intro tableRows_Some_error) auto
    ultimately show "buildTruthTable vars (Some rpn') = Inl e"
      by (simp add: buildTruthTable_def total_rows[OF n])
  next
    fix mm :: nat
    show "dom (buildEnv vars mm) = set vars" by (rule buildEnv_dom)
  next
    fix mm i :: nat assume "mm < 2 ^ length vars" "i < length vars"
    then show "buildEnv vars mm (vars ! i) = Some (if bit mm (length vars - 1 - i) then 1 else 0)"
      using n assms(1) by (intro buildEnv_bit)
  qed
qed

theorem buildTruthTable_rows_witness:
  "buildTruthTable [''A''] None =
     Inr [\<lparr>rowM = 0, rowEnv = buildEnv [''A''] 0, rowY = 0\<rparr>,
          \<lparr>rowM = 1, rowEnv = buildEnv [''A''] 1, rowY = 0\<rparr>] \<and>
   buildTruthTable [''A''] (Some [VAR ''A'']) =
     Inr [\<lparr>rowM = 0, rowEnv = buildEnv [''A''] 0, rowY = 0\<rparr>,
          \<lparr>rowM = 1, rowEnv = buildEnv [''A''] 1, rowY = 1\<rparr>] \<and>
   buildTruthTable [''A''] (Some [VAR ''B'']) = Inl (UndefinedVariable ''B'') \<and>
   buildEnv [''A''] 0 ''A'' = Some 0 \<and>
   buildEnv [''A''] 1 ''A'' = Some 1 \<and>
   dom (buildEnv [''A''] 1) = {''A''}"
proof -
  have hyps: "distinct [''A'']" "\<forall>v \<in> set [''A'']. \<exists>c. v = [c] \<and> upperLetter c"
    by (simp_all add: upperLetter_def)
  note t = buildTruthTable_rows[OF hyps, where rpn = "[VAR ''A'']"
      and rpn' = "[VAR ''B'']" and k = 0 and e = "UndefinedVariable ''B''"]
  have p: "(2::nat) ^ length [''A''] = 2" and up: "[0..<2] = [0, Suc 0]"
    by (simp_all add: upt_rec)
  have nm: "\<forall>x. VAR x \<in> set [VAR ''B''] \<longrightarrow> (\<exists>c. x = [c] \<and> upperLetter c)"
    by (simp add: upperLetter_def)
  note c1 = t[THEN conjunct1, unfolded p up]
  note c2 = t[THEN conjunct2, THEN conjunct1, unfolded p up]
  note c3 = t[THEN conjunct2, THEN conjunct2, THEN conjunct1, unfolded p, rule_format, OF nm[rule_format]]
  note c4 = t[THEN conjunct2, THEN conjunct2, THEN conjunct2, unfolded p]
  have e0: "buildEnv [''A''] 0 ''A'' = Some 0" and d0: "dom (buildEnv [''A''] 0) = {''A''}"
    using c4[THEN spec, of 0] by simp_all
  have e1: "buildEnv [''A''] 1 ''A'' = Some 1" and d1: "dom (buildEnv [''A''] 1) = {''A''}"
    using c4[THEN spec, of 1] by (simp_all add: bit_iff_odd)
  have ev: "evalRPN [VAR ''A''] (buildEnv [''A''] 0) = Inr 0"
    "evalRPN [VAR ''A''] (buildEnv [''A''] 1) = Inr 1"
    using e0 e1 by (simp_all add: evalRPN_def)
  have all: "\<forall>mm<2. \<exists>yy. evalRPN [VAR ''A''] (buildEnv [''A''] mm) = Inr yy"
    using ev by (auto simp: less_Suc_eq numeral_2_eq_2)
  have "''B'' \<notin> dom (buildEnv [''A''] 0)" unfolding d0 by simp
  then have err: "evalRPN [VAR ''B''] (buildEnv [''A''] 0) = Inl (UndefinedVariable ''B'')"
    by (auto simp: evalRPN_def split: option.splits)
  have r1: "buildTruthTable [''A''] None =
     Inr [\<lparr>rowM = 0, rowEnv = buildEnv [''A''] 0, rowY = 0\<rparr>,
          \<lparr>rowM = 1, rowEnv = buildEnv [''A''] 1, rowY = 0\<rparr>]"
    using c1 by simp
  have r2: "buildTruthTable [''A''] (Some [VAR ''A'']) =
     Inr [\<lparr>rowM = 0, rowEnv = buildEnv [''A''] 0, rowY = 0\<rparr>,
          \<lparr>rowM = 1, rowEnv = buildEnv [''A''] 1, rowY = 1\<rparr>]"
    using c2[rule_format, OF all[rule_format]] ev by simp
  have r3: "buildTruthTable [''A''] (Some [VAR ''B'']) = Inl (UndefinedVariable ''B'')"
    using c3 err by simp
  show ?thesis using r1 r2 r3 e0 e1 d1 by simp
qed

text \<open>
  The claim as written fails in two ways. A variable listed twice keeps the bit of its
  last position: over \<open>A\<close>, \<open>A\<close> the four rows are returned, and in row 2, whose bit 1
  is set, \<open>A\<close> is 0. An expression that fails to evaluate makes the call fail instead
  of returning rows.
\<close>

theorem buildTruthTable_counterexample:
  "buildTruthTable [''A'', ''A''] None =
     Inr [\<lparr>rowM = 0, rowEnv = buildEnv [''A'', ''A''] 0, rowY = 0\<rparr>,
          \<lparr>rowM = 1, rowEnv = buildEnv [''A'', ''A''] 1, rowY = 0\<rparr>,
          \<lparr>rowM = 2, rowEnv = buildEnv [''A'', ''A''] 2, rowY = 0\<rparr>,
          \<lparr>rowM = 3, rowEnv = buildEnv [''A'', ''A''] 3, rowY = 0\<rparr>] \<and>
   buildEnv [''A'', ''A''] 2 ''A'' = Some 0 \<and> bit (2 :: nat) 1 \<and>
   buildTruthTable [''A''] (Some [VAR ''B'']) = Inl (UndefinedVariable ''B'')"
proof -
  have len2: "length [''A'', ''A''] = 2" by simp
  have 1: "shl32 (Some 1) 2 = 4" by (simp add: shl32_def toInt32_def)
  have 2: "[0..<nat 4] = [0, 1, 2, 3]" by (simp add: upt_rec)
  have a: "buildTruthTable [''A'', ''A''] None =
     Inr [\<lparr>rowM = 0, rowEnv = buildEnv [''A'', ''A''] 0, rowY = 0\<rparr>,
          \<lparr>rowM = 1, rowEnv = buildEnv [''A'', ''A''] 1, rowY = 0\<rparr>,
          \<lparr>rowM = 2, rowEnv = buildEnv [''A'', ''A''] 2, rowY = 0\<rparr>,
          \<lparr>rowM = 3, rowEnv = buildEnv [''A'', ''A''] 3, rowY = 0\<rparr>]"
    unfolding buildTruthTable_def Let_def len2 1 2 tableRows_None by simp
  have b: "buildEnv [''A'', ''A''] 2 ''A'' = Some 0"
    by (simp add: buildEnv_def upt_rec and32_def sar32_def toInt32_def)
  have len1: "length [''A''] = 1" by simp
  have 3: "shl32 (Some 1) 1 = 2" by (simp add: shl32_def toInt32_def)
  have 4: "[0..<nat 2] = [0, 1]" by (simp add: upt_rec)
  have 5: "buildEnv [''A''] 0 ''B'' = None"
    by (simp add: buildEnv_def)
  have c: "buildTruthTable [''A''] (Some [VAR ''B'']) = Inl (UndefinedVariable ''B'')"
    unfolding buildTruthTable_def Let_def len1 3 4 by (simp add: 5 evalRPN_def)
  have d: "bit (2 :: nat) 1" by (simp add: bit_iff_odd)
  show ?thesis using a b c d by blast
qed

section \<open>Deduplication after a combination round\<close>

lemma dedupItems_distinct:
  "distinct (map item_key (dedupItems seen its)) \<and>
   set (map item_key (dedupItems seen its)) \<inter> set seen = {}"
  by (induction seen its rule: dedupItems.induct) auto

lemma map_of_dedupGroups_mem:
  "(k, g) \<in> set (dedupGroups newGroups) \<Longrightarrow> \<exists>g0. g = dedupItems [] g0"
  by (auto simp: dedupGroups_def)

text \<open>
  The key of the deduplication is the bit pattern, a bar, and the \<^verbatim>\<open>from\<close> array joined
  by commas, in the order the array has. After a round, the implicants of a new group
  have pairwise different keys, hence pairwise different pairs of bit pattern and
  \<^verbatim>\<open>from\<close> list.
\<close>

lemma dedup_distinct_keys:
  assumes "qmRound gs = (newGroups, primes, anyCombined)" "(k, g) \<in> set newGroups"
  shows "distinct (map item_key g) \<and>
     (\<forall>i j. i < j \<longrightarrow> j < length g \<longrightarrow>
        (bin (g ! i), from' (g ! i)) \<noteq> (bin (g ! j), from' (g ! j)))"
proof -
  obtain gs' ng0 where "newGroups = dedupGroups ng0"
    using assms(1) by (auto simp: qmRound_def split: prod.splits)
  with assms(2) obtain g0 where g: "g = dedupItems [] g0"
    using map_of_dedupGroups_mem by blast
  have d: "distinct (map item_key g)" unfolding g using dedupItems_distinct by blast
  have "(bin (g ! i), from' (g ! i)) \<noteq> (bin (g ! j), from' (g ! j))"
    if "i < j" "j < length g" for i j
  proof
    assume "(bin (g ! i), from' (g ! i)) = (bin (g ! j), from' (g ! j))"
    then have "item_key (g ! i) = item_key (g ! j)" by (simp add: item_key_def)
    then have "map item_key g ! i = map item_key g ! j" using that by simp
    moreover have "i < length (map item_key g)" "j < length (map item_key g)" using that by simp_all
    ultimately have "i = j" using d by (simp only: nth_eq_iff_index_eq)
    with that show False by simp
  qed
  with d show ?thesis by blast
qed

lemma round2_example_value:
  "qmRound (fst (qmRound (initGroups (map (\<lambda>m. toBin m 2) [0, 1, 2, 3])))) =
     ([(0, [\<lparr>bin = ''--'', used = False, from' = [''00'', ''01'', ''10'', ''11'']\<rparr>,
            \<lparr>bin = ''--'', used = False, from' = [''00'', ''10'', ''01'', ''11'']\<rparr>])],
      [], True)"
  by code_simp

text \<open>
  Claim C3 asks that no two implicants surviving the deduplication of a group agree in
  bit pattern and in the set of their originating minterms. The code builds each
  \<^verbatim>\<open>from\<close> array through a \<^verbatim>\<open>Set\<close> but compares the arrays as sequences: the two ways to
  reach \<open>--\<close> from \<open>00\<close>, \<open>01\<close>, \<open>10\<close>, \<open>11\<close> list the same four minterms in different
  orders. Minimizing the minterms 0 to 3 over two variables, the second round leaves
  both in group 0. The list of implicants returned is not affected, the prime
  implicants being collected in a \<^verbatim>\<open>Set\<close> of bit patterns.
\<close>

theorem dedup_keeps_same_from_set:
  "fst (qmRound (fst (qmRound (initGroups (map (\<lambda>m. toBin m 2) [0, 1, 2, 3]))))) =
     [(0, [\<lparr>bin = ''--'', used = False, from' = [''00'', ''01'', ''10'', ''11'']\<rparr>,
           \<lparr>bin = ''--'', used = False, from' = [''00'', ''10'', ''01'', ''11'']\<rparr>])] \<and>
   set [''00'', ''01'', ''10'', ''11''] = set [''00'', ''10'', ''01'', ''11''] \<and>
   implicants (qmSimplify [0, 1, 2, 3] [] [''A'', ''B''] ''SOP'') = [''--'']"
proof -
  have "implicants (qmSimplify [0, 1, 2, 3] [] [''A'', ''B''] ''SOP'') = [''--'']"
    by code_simp
  then show ?thesis using round2_example_value by auto
qed

section \<open>Every minterm is covered by a prime implicant\<close>

subsection \<open>Covering is kept by combination\<close>

lemma covers_refl: "covers b b"
  by (induction b) (auto simp: charAt0_def)

lemma covers_combine_left: "covers a x \<Longrightarrow> covers (combine a b) x"
  by (induction a x arbitrary: b rule: covers.induct) (auto split: if_splits)

lemma covers_combine_right: "covers b x \<Longrightarrow> covers (combine a b) x"
proof (induction a arbitrary: b x)
  case Nil
  then show ?case by simp
next
  case (Cons c a)
  show ?case
  proof (cases b)
    case Nil
    have "covers [] (tl x)" by simp
    from Cons.IH[OF this] show ?thesis using Nil by (simp add: charAt0_def)
  next
    case (Cons d b')
    with Cons.prems have "covers b' (tl x)" by (auto split: if_splits)
    from Cons.IH[OF this] Cons.prems show ?thesis
      using Cons by (auto simp: charAt0_def split: if_splits)
  qed
qed

definition alphabetOK :: "string \<Rightarrow> bool" where
  "alphabetOK s = (set s \<subseteq> {CHR ''0'', CHR ''1'', CHR ''-''})"

lemma alphabetOK_combine: "alphabetOK a \<Longrightarrow> alphabetOK (combine a b)"
  by (induction a b rule: combine.induct) (auto simp: alphabetOK_def)

lemma item_key_bin:
  assumes "item_key c = item_key c'" "alphabetOK (bin c)" "alphabetOK (bin c')"
  shows "bin c = bin c'"
proof -
  have nb: "CHR ''|'' \<notin> set (bin c)" "CHR ''|'' \<notin> set (bin c')"
    using assms(2,3) by (auto simp: alphabetOK_def)
  have "takeWhile (\<lambda>ch. ch \<noteq> CHR ''|'') (item_key it) = bin it"
    if "CHR ''|'' \<notin> set (bin it)" for it
    unfolding item_key_def using that by (subst takeWhile_append2) auto
  from this[OF nb(1)] this[OF nb(2)] assms(1) show ?thesis by simp
qed

lemma dedupItems_keeps_key:
  "c \<in> set its \<Longrightarrow>
   item_key c \<in> set seen \<or> (\<exists>c' \<in> set (dedupItems seen its). item_key c' = item_key c)"
proof (induction seen its rule: dedupItems.induct)
  case (1 seen)
  then show ?case by simp
next
  case (2 seen it its)
  show ?case
  proof (cases "item_key it \<in> set seen")
    case True
    then show ?thesis using 2 by auto
  next
    case False
    show ?thesis
    proof (cases "c = it")
      case True
      then show ?thesis using False by simp
    next
      case ne: False
      then have "c \<in> set its" using "2.prems" by simp
      from "2.IH"(2)[OF False this] show ?thesis using False by auto
    qed
  qed
qed

subsection \<open>Flags after a round\<close>

definition allUnused :: "groups \<Rightarrow> bool" where
  "allUnused gs = (\<forall>k. \<forall>it \<in> set (group_get gs k). \<not> used it)"

definition allAlphabet :: "groups \<Rightarrow> bool" where
  "allAlphabet gs = (\<forall>k. \<forall>it \<in> set (group_get gs k). alphabetOK (bin it))"

lemma combineInto_mono:
  "it \<in> set (group_get ng k) \<Longrightarrow> it \<in> set (group_get (combineInto g1 g2 ng) k)"
  by (simp add: combineInto_mem)

lemma combinePairs_mono:
  "combinePairs keys gs ng anyC = (gs', ng', anyC') \<Longrightarrow> it \<in> set (group_get ng k) \<Longrightarrow>
   it \<in> set (group_get ng' k)"
proof (induction keys gs ng anyC rule: combinePairs.induct)
  case (1 k1 k2 keys gs newGroups anyCombined)
  then show ?case by (simp add: Let_def combineInto_mono)
qed simp_all

text \<open>An item whose flag is set was flagged before the round or has a child.\<close>

definition hasChild :: "groups \<Rightarrow> item \<Rightarrow> bool" where
  "hasChild ng it =
     (\<exists>k c a b. c \<in> set (group_get ng k) \<and> c = newItem a b \<and> (bin a = bin it \<or> bin b = bin it))"

lemma hasChild_mono:
  "combinePairs keys gs ng anyC = (gs', ng', anyC') \<Longrightarrow> hasChild ng it \<Longrightarrow> hasChild ng' it"
  unfolding hasChild_def using combinePairs_mono by blast

lemma markFirst_used:
  assumes "it \<in> set (markFirst g1 g2)" "used it"
  shows "(\<exists>a \<in> set g1. core a = core it \<and> used a) \<or>
         (\<exists>a \<in> set g1. \<exists>b \<in> set g2. bin a = bin it \<and> canCombine (bin a) (bin b))"
  using assms by (auto simp: markFirst_def core_def split: if_splits)

lemma markSecond_used:
  assumes "it \<in> set (markSecond g1 g2)" "used it"
  shows "(\<exists>b \<in> set g2. core b = core it \<and> used b) \<or>
         (\<exists>a \<in> set g1. \<exists>b \<in> set g2. bin b = bin it \<and> canCombine (bin a) (bin b))"
  using assms by (auto simp: markSecond_def core_def split: if_splits)

lemma combineInto_child:
  assumes "a \<in> set g1" "b \<in> set g2" "canCombine (bin a) (bin b)"
    "bin a = bin it \<or> bin b = bin it"
  shows "hasChild (combineInto g1 g2 ng) it"
  unfolding hasChild_def using assms combineInto_mem[of "newItem a b" g1 g2 ng "countOnes (bin (newItem a b))"]
  by blast

lemma combinePairs_used:
  "combinePairs keys gs ng anyC = (gs', ng', anyC') \<Longrightarrow>
   it' \<in> set (group_get gs' k) \<Longrightarrow> used it' \<Longrightarrow>
   (\<exists>it \<in> set (group_get gs k). core it = core it' \<and> used it) \<or> hasChild ng' it'"
proof (induction keys gs ng anyC rule: combinePairs.induct)
  case (1 k1 k2 keys gs newGroups anyCombined)
  let ?g1 = "group_get gs k1" and ?g2 = "group_get gs k2"
  let ?gs1 = "AList.update k2 (markSecond ?g1 ?g2) (AList.update k1 (markFirst ?g1 ?g2) gs)"
  let ?ng1 = "combineInto ?g1 ?g2 newGroups"
  have step: "combinePairs (k2 # keys) ?gs1 ?ng1 (anyCombined \<or> anyPair ?g1 ?g2) = (gs', ng', anyC')"
    using "1.prems"(1) by (simp add: Let_def)
  from "1.IH"[OF refl refl refl step "1.prems"(2,3)]
  consider it where "it \<in> set (group_get ?gs1 k)" "core it = core it'" "used it"
    | "hasChild ng' it'" by blast
  then show ?case
  proof cases
    case 2
    then show ?thesis by simp
  next
    case 1
    have bin: "bin it = bin it'" using 1(2) by (simp add: core_def)
    have child: "hasChild ng' it'" if "a \<in> set ?g1" "b \<in> set ?g2" "canCombine (bin a) (bin b)"
      "bin a = bin it' \<or> bin b = bin it'" for a b
      using hasChild_mono[OF step combineInto_child[OF that]] .
    show ?thesis
    proof (cases "k = k2")
      case True
      then have "it \<in> set (markSecond ?g1 ?g2)" using 1(1) by (simp add: group_get_update)
      from markSecond_used[OF this 1(3)] show ?thesis
      proof
        assume "\<exists>b \<in> set ?g2. core b = core it \<and> used b"
        then show ?thesis using True 1(2) by auto
      next
        assume "\<exists>a \<in> set ?g1. \<exists>b \<in> set ?g2. bin b = bin it \<and> canCombine (bin a) (bin b)"
        then show ?thesis using child bin by metis
      qed
    next
      case nk2: False
      show ?thesis
      proof (cases "k = k1")
        case True
        then have "it \<in> set (markFirst ?g1 ?g2)" using 1(1) nk2 by (simp add: group_get_update)
        from markFirst_used[OF this 1(3)] show ?thesis
        proof
          assume "\<exists>a \<in> set ?g1. core a = core it \<and> used a"
          then show ?thesis using True 1(2) by auto
        next
          assume "\<exists>a \<in> set ?g1. \<exists>b \<in> set ?g2. bin a = bin it \<and> canCombine (bin a) (bin b)"
          then show ?thesis using child bin by metis
        qed
      next
        case False
        then have "it \<in> set (group_get gs k)" using 1(1) nk2 by (simp add: group_get_update)
        then show ?thesis using 1(2,3) by auto
      qed
    qed
  qed
qed auto


subsection \<open>One round keeps every term covered\<close>

lemma set_group_keys: "set (group_keys gs) = fst ` set gs"
  by (simp add: group_keys_def)

lemma combinePairs_keys:
  "combinePairs keys gs ng anyC = (gs', ng', anyC') \<Longrightarrow> set keys \<subseteq> fst ` set gs \<Longrightarrow>
   fst ` set gs' = fst ` set gs"
proof (induction keys gs ng anyC rule: combinePairs.induct)
  case (1 k1 k2 keys gs newGroups anyCombined)
  let ?g1 = "group_get gs k1" and ?g2 = "group_get gs k2"
  let ?gs1 = "AList.update k2 (markSecond ?g1 ?g2) (AList.update k1 (markFirst ?g1 ?g2) gs)"
  have k: "fst ` set ?gs1 = fst ` set gs" using "1.prems"(2) by (auto simp: dom_update)
  have step: "combinePairs (k2 # keys) ?gs1 (combineInto ?g1 ?g2 newGroups)
      (anyCombined \<or> anyPair ?g1 ?g2) = (gs', ng', anyC')"
    using "1.prems"(1) by (simp add: Let_def)
  have "set (k2 # keys) \<subseteq> fst ` set ?gs1" using "1.prems"(2) k by auto
  from "1.IH"[OF refl refl refl step this] k show ?case by simp
qed auto

lemma collectPrimes_mem:
  "p \<in> set (collectPrimes gs) \<longleftrightarrow> (\<exists>k. \<exists>it \<in> set (group_get gs k). \<not> used it \<and> p = bin it)"
proof
  assume "p \<in> set (collectPrimes gs)"
  then show "\<exists>k. \<exists>it \<in> set (group_get gs k). \<not> used it \<and> p = bin it"
    by (auto simp: collectPrimes_def)
next
  assume "\<exists>k. \<exists>it \<in> set (group_get gs k). \<not> used it \<and> p = bin it"
  then obtain k it where it: "it \<in> set (group_get gs k)" "\<not> used it" "p = bin it" by blast
  then have "k \<in> fst ` set gs" using group_get_empty_outside[of k gs] by fastforce
  then show "p \<in> set (collectPrimes gs)"
    using it by (auto simp: collectPrimes_def set_group_keys)
qed

lemma products_unused_alphabet:
  assumes "(k, c) \<in> products gs" "allAlphabet gs"
  shows "\<not> used c \<and> alphabetOK (bin c)"
proof -
  from assms(1) obtain k1 a b where "a \<in> set (group_get gs k1)" "c = newItem a b"
    by (auto simp: products_def)
  then show ?thesis using assms(2) by (auto simp: allAlphabet_def newItem_def alphabetOK_combine)
qed

lemma qmRound_invariants:
  assumes "qmRound gs = (ng, primes, anyC)" "allAlphabet gs"
  shows "allUnused ng" "allAlphabet ng"
  using qmRound_products[OF assms(1)] products_unused_alphabet[OF _ assms(2)]
  unfolding allUnused_def allAlphabet_def by blast+

lemma qmRound_primes_alphabet:
  assumes "qmRound gs = (ng, primes, anyC)" "allAlphabet gs" "p \<in> set primes"
  shows "alphabetOK p"
proof -
  obtain gs' ng0 where cp: "combinePairs (group_keys gs) gs [] False = (gs', ng0, anyC)"
    and pr: "primes = collectPrimes gs'"
    using assms(1) by (auto simp: qmRound_def split: prod.splits)
  from assms(3) obtain k it where it: "it \<in> set (group_get gs' k)" "p = bin it"
    unfolding pr collectPrimes_mem by blast
  from core_mem[OF combinePairs_core[OF cp] it(1)] obtain it0 where
    it0: "it0 \<in> set (group_get gs k)" "core it0 = core it" by blast
  from it0(1) assms(2) have "alphabetOK (bin it0)" unfolding allAlphabet_def by blast
  moreover from it0(2) have "bin it0 = bin it" by (simp add: core_def)
  ultimately show ?thesis using it(2) by simp
qed

definition coveredBy :: "string set \<Rightarrow> string \<Rightarrow> bool" where
  "coveredBy S x = (\<exists>p \<in> S. covers p x)"

definition binsOf :: "groups \<Rightarrow> string set" where
  "binsOf gs = bin ` itemsOf gs"

lemma binsOf_mem: "p \<in> binsOf gs \<longleftrightarrow> (\<exists>k. \<exists>it \<in> set (group_get gs k). p = bin it)"
  by (auto simp: binsOf_def itemsOf_def)

lemma qmRound_covered:
  assumes r: "qmRound gs = (ng, primes, anyC)" and un: "allUnused gs" and al: "allAlphabet gs"
    and cov: "coveredBy (binsOf gs) x"
  shows "coveredBy (set primes \<union> binsOf ng) x"
proof -
  obtain gs' ng0 where cp: "combinePairs (group_keys gs) gs [] False = (gs', ng0, anyC)"
    and ng: "ng = dedupGroups ng0" and pr: "primes = collectPrimes gs'"
    using r by (auto simp: qmRound_def split: prod.splits)
  from cov obtain p where "p \<in> binsOf gs" "covers p x"
    unfolding coveredBy_def by blast
  then obtain k it where it: "it \<in> set (group_get gs k)" "covers (bin it) x"
    unfolding binsOf_mem by blast
  from core_mem[OF combinePairs_core[OF cp, symmetric] it(1)]
  obtain it' where it': "it' \<in> set (group_get gs' k)" "core it' = core it" by blast
  then have bin: "bin it' = bin it" by (simp add: core_def)
  show ?thesis
  proof (cases "used it'")
    case False
    then have "bin it \<in> set primes" unfolding pr collectPrimes_mem using it' bin by metis
    then show ?thesis using it(2) by (auto simp: coveredBy_def)
  next
    case True
    from combinePairs_used[OF cp it'(1) True] have "hasChild ng0 it'"
      using un by (auto simp: allUnused_def)
    then obtain k' c a b where c: "c \<in> set (group_get ng0 k')" "c = newItem a b"
      "bin a = bin it' \<or> bin b = bin it'"
      unfolding hasChild_def by blast
    have cc: "covers (bin c) x"
      using c(2,3) it(2) bin covers_combine_left covers_combine_right
      by (auto simp: newItem_def)
    have prod: "(k', c) \<in> products gs"
      using combinePairs_mem[OF sorted_wrt_group_keys cp c(1)] by simp
    from dedupItems_keeps_key[OF c(1), of "[]"]
    obtain c' where c': "c' \<in> set (dedupItems [] (group_get ng0 k'))" "item_key c' = item_key c"
      by auto
    have "c' \<in> set (group_get ng0 k')" using c'(1) set_dedupItems by blast
    then have "(k', c') \<in> products gs"
      using combinePairs_mem[OF sorted_wrt_group_keys cp] by simp
    then have "bin c' = bin c"
      using item_key_bin[OF c'(2)] products_unused_alphabet[OF _ al] prod by blast
    moreover have "c' \<in> set (group_get ng k')" using c'(1) by (simp add: ng group_get_dedupGroups)
    ultimately have "bin c \<in> binsOf ng" unfolding binsOf_mem by metis
    then show ?thesis using cc by (auto simp: coveredBy_def)
  qed
qed

subsection \<open>The loop keeps every term covered\<close>

lemma qmLoop_covered:
  "qmLoop gs levels = (gsF, levelsF) \<Longrightarrow> allUnused gs \<Longrightarrow> allAlphabet gs \<Longrightarrow>
   coveredBy (set (concat levels) \<union> binsOf gs) x \<Longrightarrow>
   coveredBy (set (concat levelsF) \<union> binsOf gsF) x"
proof (induction gs levels rule: qmLoop.induct)
  case (1 gs levels)
  obtain ng primes anyC where r: "qmRound gs = (ng, primes, anyC)" by (cases "qmRound gs") auto
  have inv: "allUnused ng" "allAlphabet ng" using qmRound_invariants[OF r "1.prems"(3)] .
  have cov: "coveredBy (set (concat (levels @ [primes])) \<union> binsOf ng) x"
  proof -
    from "1.prems"(4) consider "coveredBy (set (concat levels)) x" | "coveredBy (binsOf gs) x"
      by (auto simp: coveredBy_def)
    then show ?thesis
    proof cases
      case 1 then show ?thesis by (auto simp: coveredBy_def)
    next
      case 2
      from qmRound_covered[OF r "1.prems"(2,3) this] show ?thesis by (auto simp: coveredBy_def)
    qed
  qed
  show ?case
  proof (cases anyC)
    case True
    then have "qmLoop ng (levels @ [primes]) = (gsF, levelsF)"
      using "1.prems"(1) r by (subst (asm) qmLoop.simps) simp
    from "1.IH"[OF r[symmetric] refl True this inv cov] show ?thesis .
  next
    case False
    then have "gsF = ng" "levelsF = levels @ [primes]"
      using "1.prems"(1) r by (subst (asm) qmLoop.simps, simp)+
    then show ?thesis using cov by simp
  qed
qed


subsection \<open>The prime implicant list covers every term\<close>

lemma initGroups_fold:
  "group_get (fold (\<lambda>b gs. group_push gs (countOnes b) \<lparr>bin = b, used = False, from' = [b]\<rparr>) bins gs0) k =
   group_get gs0 k @ map (\<lambda>b. \<lparr>bin = b, used = False, from' = [b]\<rparr>) (filter (\<lambda>b. countOnes b = k) bins)"
  by (induction bins arbitrary: gs0) (auto simp: group_get_push)

lemma group_get_initGroups:
  "group_get (initGroups bins) k =
     map (\<lambda>b. \<lparr>bin = b, used = False, from' = [b]\<rparr>) (filter (\<lambda>b. countOnes b = k) bins)"
  by (simp add: initGroups_def initGroups_fold)

lemma initGroups_invariants:
  "allUnused (initGroups bins)"
  "(\<forall>b \<in> set bins. alphabetOK b) \<Longrightarrow> allAlphabet (initGroups bins)"
  "binsOf (initGroups bins) = set bins"
  by (auto simp: allUnused_def allAlphabet_def binsOf_mem group_get_initGroups)

lemma set_fold_set_add: "set (fold set_add xs acc) = set acc \<union> set xs"
  by (induction xs arbitrary: acc) (auto simp: set_set_add)

lemma distinct_fold_set_add: "distinct acc \<Longrightarrow> distinct (fold set_add xs acc)"
  by (induction xs arbitrary: acc) (auto simp: set_add_def)

lemma set_group_bins:
  "set (concat (map (\<lambda>k. map bin (group_get gs k)) (group_keys gs))) = binsOf gs"
proof -
  have in_keys: "k \<in> fst ` set gs" if "it \<in> set (group_get gs k)" for it k
    using that group_get_empty_outside[of k gs] by fastforce
  show ?thesis
  proof (intro set_eqI iffI)
    fix p assume "p \<in> set (concat (map (\<lambda>k. map bin (group_get gs k)) (group_keys gs)))"
    then show "p \<in> binsOf gs" unfolding binsOf_mem by auto
  next
    fix p assume "p \<in> binsOf gs"
    then obtain k it where it: "it \<in> set (group_get gs k)" "p = bin it"
      unfolding binsOf_mem by blast
    then have "k \<in> set (group_keys gs)" using in_keys by (simp add: set_group_keys)
    then show "p \<in> set (concat (map (\<lambda>k. map bin (group_get gs k)) (group_keys gs)))"
      using it by auto
  qed
qed

lemma set_finalPrimes: "set (finalPrimes gs levels) = set (concat levels) \<union> binsOf gs"
  unfolding finalPrimes_def set_fold_set_add by (simp add: set_group_bins del: set_concat)

lemma alphabetOK_toBin: "alphabetOK (toBin m W)"
proof -
  have "set (toString2 n) \<subseteq> {CHR ''0'', CHR ''1''}" for n
    by (induction n rule: toString2.induct) (subst toString2.simps, auto)
  then show ?thesis by (auto simp: alphabetOK_def toBin_def padStart_def)
qed

lemma primeImplicants_cover:
  assumes "\<forall>b \<in> set bins. alphabetOK b" "x \<in> set bins"
  shows "coveredBy (set (primeImplicants bins)) x"
proof -
  obtain gsF levelsF where l: "qmLoop (initGroups bins) [] = (gsF, levelsF)"
    by (cases "qmLoop (initGroups bins) []") auto
  have "coveredBy (set (concat []) \<union> binsOf (initGroups bins)) x"
    using assms(2) covers_refl by (auto simp: coveredBy_def initGroups_invariants(3))
  from qmLoop_covered[OF l initGroups_invariants(1) initGroups_invariants(2)[OF assms(1)] this]
  show ?thesis by (simp add: primeImplicants_def l set_finalPrimes)
qed

lemma buildCover_row:
  "i < length minBin \<Longrightarrow>
   buildCover primeList minBin ! i =
     filter (\<lambda>j. covers (primeList ! j) (minBin ! i)) [0..<length primeList]"
  by (simp add: buildCover_def)

lemma length_buildCover [simp]: "length (buildCover primeList minBin) = length minBin"
  by (simp add: buildCover_def)

lemma buildCover_rows_ok:
  assumes "\<forall>x \<in> set minBin. coveredBy (set primeList) x" "row \<in> set (buildCover primeList minBin)"
  shows "row \<noteq> [] \<and> set row \<subseteq> {0..<length primeList} \<and> distinct row"
proof -
  from assms(2) obtain mb where mb: "mb \<in> set minBin"
    "row = filter (\<lambda>j. covers (primeList ! j) mb) [0..<length primeList]"
    by (auto simp: buildCover_def)
  from assms(1) mb(1) obtain p where "p \<in> set primeList" "covers p mb"
    by (auto simp: coveredBy_def)
  then obtain j where "j < length primeList" "covers (primeList ! j) mb"
    by (auto simp: in_set_conv_nth)
  then have "j \<in> set row" unfolding mb(2) by simp
  then have "row \<noteq> []" by auto
  then show ?thesis unfolding mb(2) by auto
qed

lemma minimizer_chart_ok:
  assumes "row \<in> set (buildCover (primeImplicants (map (\<lambda>m. toBin m W) (minterms @ dontcares)))
                     (map (\<lambda>m. toBin m W) minterms))"
  shows "row \<noteq> [] \<and>
     set row \<subseteq> {0..<length (primeImplicants (map (\<lambda>m. toBin m W) (minterms @ dontcares)))} \<and>
     distinct row"
proof (rule buildCover_rows_ok[OF _ assms])
  show "\<forall>x \<in> set (map (\<lambda>m. toBin m W) minterms).
      coveredBy (set (primeImplicants (map (\<lambda>m. toBin m W) (minterms @ dontcares)))) x"
    by (auto intro!: primeImplicants_cover simp: alphabetOK_toBin)
qed

section \<open>The selection phase\<close>

subsection \<open>The selection phase as the specification words it\<close>

text \<open>
  The essential implicants: every prime that is the only one covering some minterm.
\<close>

definition spec_essential :: "nat \<Rightarrow> nat list list \<Rightarrow> nat list" where
  "spec_essential nPrimes cover = filter (\<lambda>j. \<exists>row \<in> set cover. set row = {j}) [0..<nPrimes]"

text \<open>The minterms no chosen implicant covers, and how many of them an implicant covers.\<close>

definition spec_uncovered :: "nat list list \<Rightarrow> nat list \<Rightarrow> nat list" where
  "spec_uncovered cover chosen =
     filter (\<lambda>i. \<not> (\<exists>j \<in> set chosen. j \<in> set (cover ! i))) [0..<length cover]"

definition spec_gain :: "nat list list \<Rightarrow> nat list \<Rightarrow> nat \<Rightarrow> nat" where
  "spec_gain cover chosen j = length (filter (\<lambda>i. j \<in> set (cover ! i)) (spec_uncovered cover chosen))"

definition spec_candidates :: "nat \<Rightarrow> nat list \<Rightarrow> nat list" where
  "spec_candidates nPrimes chosen = filter (\<lambda>j. j \<notin> set chosen) [0..<nPrimes]"

text \<open>
  The implicant to add: the first (lowest index) not-yet-chosen implicant whose gain
  no other not-yet-chosen implicant exceeds.
\<close>

definition spec_best :: "nat \<Rightarrow> nat list list \<Rightarrow> nat list \<Rightarrow> nat option" where
  "spec_best nPrimes cover chosen =
     find (\<lambda>j. \<forall>j' \<in> set (spec_candidates nPrimes chosen).
                 spec_gain cover chosen j' \<le> spec_gain cover chosen j)
       (spec_candidates nPrimes chosen)"

lemma find_Some_mem: "find P xs = Some x \<Longrightarrow> x \<in> set xs \<and> P x"
  by (induction xs) (auto split: if_splits)

lemma spec_best_fresh:
  "spec_best nPrimes cover chosen = Some j \<Longrightarrow> j < nPrimes \<and> j \<notin> set chosen"
  unfolding spec_best_def by (drule find_Some_mem) (simp add: spec_candidates_def)

text \<open>
  While uncovered minterms remain: stop when no implicant covers any of them, else add
  the best implicant.
\<close>

function spec_greedy :: "nat \<Rightarrow> nat list list \<Rightarrow> nat list \<Rightarrow> nat list" where
  "spec_greedy nPrimes cover chosen =
     (if spec_uncovered cover chosen = [] then chosen
      else if \<forall>j \<in> set (spec_candidates nPrimes chosen). spec_gain cover chosen j = 0 then chosen
      else (case spec_best nPrimes cover chosen of
              None \<Rightarrow> chosen
            | Some j \<Rightarrow> spec_greedy nPrimes cover (chosen @ [j])))"
  by pat_completeness auto
termination
proof (relation "measure (\<lambda>(nPrimes, cover, chosen). card ({0..<nPrimes} - set chosen))")
  show "wf (measure (\<lambda>(nPrimes, cover, chosen). card ({0..<nPrimes} - set chosen)))" by simp
next
  fix nPrimes :: nat and cover chosen j
  assume "spec_best nPrimes cover chosen = Some j"
  then have j: "j < nPrimes" "j \<notin> set chosen" using spec_best_fresh by blast+
  have "card ({0..<nPrimes} - set (set_add j chosen)) < card ({0..<nPrimes} - set chosen)"
    using j by (rule card_unchosen_less)
  then show "((nPrimes, cover, chosen @ [j]), nPrimes, cover, chosen)
      \<in> measure (\<lambda>(nPrimes, cover, chosen). card ({0..<nPrimes} - set chosen))"
    using j by (simp add: set_add_def)
qed

declare spec_greedy.simps [simp del]

definition spec_select :: "nat \<Rightarrow> nat list list \<Rightarrow> nat list" where
  "spec_select nPrimes cover = spec_greedy nPrimes cover (spec_essential nPrimes cover)"

subsection \<open>The code's selection against the specification's\<close>

definition coveredSet :: "nat list list \<Rightarrow> nat list \<Rightarrow> nat set" where
  "coveredSet cover chosen = {i. i < length cover \<and> (\<exists>j \<in> set (cover ! i). j \<in> set chosen)}"

definition rowsInv :: "nat list list \<Rightarrow> nat list \<Rightarrow> nat list \<Rightarrow> bool" where
  "rowsInv cover chosen coveredRows =
     (distinct coveredRows \<and> set coveredRows = coveredSet cover chosen)"

definition chartOK :: "nat \<Rightarrow> nat list list \<Rightarrow> bool" where
  "chartOK nPrimes cover =
     (\<forall>row \<in> set cover. row \<noteq> [] \<and> set row \<subseteq> {0..<nPrimes} \<and> distinct row)"

lemma markCovered_fold:
  "set (fold (\<lambda>i covered.
             if i \<in> set covered then covered
             else if \<exists>j \<in> set (cover ! i). j \<in> set chosen then set_add i covered
             else covered) js cr) =
     set cr \<union> {i \<in> set js. \<exists>j \<in> set (cover ! i). j \<in> set chosen} \<and>
   (distinct cr \<longrightarrow> distinct (fold (\<lambda>i covered.
             if i \<in> set covered then covered
             else if \<exists>j \<in> set (cover ! i). j \<in> set chosen then set_add i covered
             else covered) js cr))"
proof (induction js arbitrary: cr)
  case Nil
  then show ?case by simp
next
  case (Cons a js)
  show ?case unfolding fold_simps
    by (auto simp: Cons.IH set_set_add set_add_def)
qed

lemma markCovered_set:
  "set (markCovered cover chosen cr) = set cr \<union> coveredSet cover chosen"
  unfolding markCovered_def using markCovered_fold[of cover chosen "[0..<length cover]" cr]
  by (auto simp: coveredSet_def)

lemma markCovered_distinct: "distinct cr \<Longrightarrow> distinct (markCovered cover chosen cr)"
  unfolding markCovered_def using markCovered_fold[of cover chosen "[0..<length cover]" cr]
  by simp

lemma coveredSet_mono: "set c1 \<subseteq> set c2 \<Longrightarrow> coveredSet cover c1 \<subseteq> coveredSet cover c2"
  by (auto simp: coveredSet_def)

lemma rowsInv_init: "rowsInv cover chosen (markCovered cover chosen [])"
  by (simp add: rowsInv_def markCovered_set markCovered_distinct)

lemma rowsInv_step:
  assumes "rowsInv cover chosen cr"
  shows "rowsInv cover (set_add j chosen) (markCovered cover (set_add j chosen) cr)"
proof -
  have "coveredSet cover chosen \<subseteq> coveredSet cover (set_add j chosen)"
    by (rule coveredSet_mono) (auto simp: set_set_add)
  then show ?thesis using assms
    by (auto simp: rowsInv_def markCovered_set markCovered_distinct)
qed

lemma set_spec_uncovered:
  "set (spec_uncovered cover chosen) = {0..<length cover} - coveredSet cover chosen"
  by (auto simp: spec_uncovered_def coveredSet_def)

lemma rowsInv_all_covered:
  assumes "rowsInv cover chosen cr"
  shows "length cr < length cover \<longleftrightarrow> spec_uncovered cover chosen \<noteq> []"
proof -
  have eq: "set cr = coveredSet cover chosen" using assms by (simp add: rowsInv_def)
  have sub: "coveredSet cover chosen \<subseteq> {0..<length cover}" by (auto simp: coveredSet_def)
  have len: "length cr = card (coveredSet cover chosen)"
    using assms distinct_card[of cr] by (simp add: rowsInv_def)
  have un: "set (spec_uncovered cover chosen) = {0..<length cover} - coveredSet cover chosen"
    by (rule set_spec_uncovered)
  show ?thesis
  proof
    assume lt: "length cr < length cover"
    have "coveredSet cover chosen \<noteq> {0..<length cover}"
    proof
      assume "coveredSet cover chosen = {0..<length cover}"
      then have "card (coveredSet cover chosen) = length cover" by simp
      with lt len show False by simp
    qed
    with sub have "{0..<length cover} - coveredSet cover chosen \<noteq> {}" by blast
    with un have "set (spec_uncovered cover chosen) \<noteq> {}" by simp
    then show "spec_uncovered cover chosen \<noteq> []" by simp
  next
    assume "spec_uncovered cover chosen \<noteq> []"
    then have "set (spec_uncovered cover chosen) \<noteq> {}" by simp
    with un have "{0..<length cover} - coveredSet cover chosen \<noteq> {}" by simp
    with sub have ps: "coveredSet cover chosen \<subset> {0..<length cover}" by blast
    have "finite {0..<length cover}" by simp
    from psubset_card_mono[OF this ps] have "card (coveredSet cover chosen) < length cover" by simp
    with len show "length cr < length cover" by simp
  qed
qed

lemma coverCount_gain:
  assumes "rowsInv cover chosen cr"
  shows "coverCount cover cr j = spec_gain cover chosen j"
proof -
  have "(i \<notin> set cr) = (\<not> (\<exists>j \<in> set chosen. j \<in> set (cover ! i)))" if "i < length cover" for i
    using assms that by (auto simp: rowsInv_def coveredSet_def)
  then have "filter (\<lambda>i. i \<notin> set cr \<and> j \<in> set (cover ! i)) [0..<length cover] =
      filter (\<lambda>i. \<not> (\<exists>j \<in> set chosen. j \<in> set (cover ! i)) \<and> j \<in> set (cover ! i)) [0..<length cover]"
    by (intro filter_cong) auto
  then show ?thesis
    by (simp add: coverCount_def spec_gain_def spec_uncovered_def conj_commute)
qed

lemma fold_bestStep:
  "fold (bestStep cover chosen cr) js (b, c) = (b', c') \<Longrightarrow>
   c \<le> c' \<and> (\<forall>j \<in> set js. j \<notin> set chosen \<longrightarrow> int (coverCount cover cr j) \<le> c') \<and>
   ((b', c') = (b, c) \<or>
    (\<exists>pre j post. js = pre @ j # post \<and> b' = Some j \<and> j \<notin> set chosen \<and>
       c' = int (coverCount cover cr j) \<and> c < c' \<and>
       (\<forall>i \<in> set pre. i \<notin> set chosen \<longrightarrow> int (coverCount cover cr i) < c')))"
proof (induction js arbitrary: b c)
  case Nil
  then show ?case by simp
next
  case (Cons x js)
  let ?g = "\<lambda>j. int (coverCount cover cr j)"
  show ?case
  proof (cases "x \<notin> set chosen \<and> ?g x > c")
    case True
    then have "bestStep cover chosen cr x (b, c) = (Some x, ?g x)"
      by (simp add: bestStep_def)
    then have "fold (bestStep cover chosen cr) js (Some x, ?g x) = (b', c')"
      using Cons.prems by (simp only: fold_simps)
    from Cons.IH[OF this]
    have le: "?g x \<le> c'" and all: "\<forall>j \<in> set js. j \<notin> set chosen \<longrightarrow> ?g j \<le> c'"
      and alt: "(b', c') = (Some x, ?g x) \<or>
        (\<exists>pre j post. js = pre @ j # post \<and> b' = Some j \<and> j \<notin> set chosen \<and>
          c' = ?g j \<and> ?g x < c' \<and> (\<forall>i \<in> set pre. i \<notin> set chosen \<longrightarrow> ?g i < c'))"
      by blast+
    from alt have "\<exists>pre j post. x # js = pre @ j # post \<and> b' = Some j \<and> j \<notin> set chosen \<and>
          c' = ?g j \<and> c < c' \<and> (\<forall>i \<in> set pre. i \<notin> set chosen \<longrightarrow> ?g i < c')"
    proof
      assume "(b', c') = (Some x, ?g x)"
      then have "x # js = [] @ x # js \<and> b' = Some x \<and> x \<notin> set chosen \<and>
          c' = ?g x \<and> c < c' \<and> (\<forall>i \<in> set []. i \<notin> set chosen \<longrightarrow> ?g i < c')"
        using True by simp
      then show ?thesis by blast
    next
      assume "\<exists>pre j post. js = pre @ j # post \<and> b' = Some j \<and> j \<notin> set chosen \<and>
          c' = ?g j \<and> ?g x < c' \<and> (\<forall>i \<in> set pre. i \<notin> set chosen \<longrightarrow> ?g i < c')"
      then obtain pre j post where h: "js = pre @ j # post" "b' = Some j" "j \<notin> set chosen"
          "c' = ?g j" "?g x < c'" "\<forall>i \<in> set pre. i \<notin> set chosen \<longrightarrow> ?g i < c'"
        by blast
      then have "x # js = (x # pre) @ j # post \<and> b' = Some j \<and> j \<notin> set chosen \<and>
          c' = ?g j \<and> c < c' \<and> (\<forall>i \<in> set (x # pre). i \<notin> set chosen \<longrightarrow> ?g i < c')"
        using True by auto
      then show ?thesis by blast
    qed
    then show ?thesis using le all True by auto
  next
    case False
    then have "bestStep cover chosen cr x (b, c) = (b, c)"
      by (auto simp: bestStep_def)
    then have "fold (bestStep cover chosen cr) js (b, c) = (b', c')"
      using Cons.prems by (simp only: fold_simps)
    from Cons.IH[OF this]
    have le: "c \<le> c'" and all: "\<forall>j \<in> set js. j \<notin> set chosen \<longrightarrow> ?g j \<le> c'"
      and alt: "(b', c') = (b, c) \<or>
        (\<exists>pre j post. js = pre @ j # post \<and> b' = Some j \<and> j \<notin> set chosen \<and>
          c' = ?g j \<and> c < c' \<and> (\<forall>i \<in> set pre. i \<notin> set chosen \<longrightarrow> ?g i < c'))"
      by blast+
    have x: "x \<notin> set chosen \<longrightarrow> ?g x \<le> c" using False by auto
    from alt have "(b', c') = (b, c) \<or>
        (\<exists>pre j post. x # js = pre @ j # post \<and> b' = Some j \<and> j \<notin> set chosen \<and>
          c' = ?g j \<and> c < c' \<and> (\<forall>i \<in> set pre. i \<notin> set chosen \<longrightarrow> ?g i < c'))"
    proof
      assume "(b', c') = (b, c)" then show ?thesis by simp
    next
      assume "\<exists>pre j post. js = pre @ j # post \<and> b' = Some j \<and> j \<notin> set chosen \<and>
          c' = ?g j \<and> c < c' \<and> (\<forall>i \<in> set pre. i \<notin> set chosen \<longrightarrow> ?g i < c')"
      then obtain pre j post where h: "js = pre @ j # post" "b' = Some j" "j \<notin> set chosen"
          "c' = ?g j" "c < c'" "\<forall>i \<in> set pre. i \<notin> set chosen \<longrightarrow> ?g i < c'"
        by blast
      then have "x # js = (x # pre) @ j # post \<and> b' = Some j \<and> j \<notin> set chosen \<and>
          c' = ?g j \<and> c < c' \<and> (\<forall>i \<in> set (x # pre). i \<notin> set chosen \<longrightarrow> ?g i < c')"
        using x by auto
      then show ?thesis by blast
    qed
    then show ?thesis using le all x by auto
  qed
qed


lemma find_first:
  "\<forall>x \<in> set xs. \<not> P x \<Longrightarrow> P y \<Longrightarrow> find P (xs @ y # ys) = Some y"
  by (induction xs) auto

lemma spec_cong:
  assumes "set c1 = set c2"
  shows "spec_uncovered cover c1 = spec_uncovered cover c2"
    and "spec_gain cover c1 = spec_gain cover c2"
    and "spec_candidates nPrimes c1 = spec_candidates nPrimes c2"
    and "spec_best nPrimes cover c1 = spec_best nPrimes cover c2"
proof -
  show u: "spec_uncovered cover c1 = spec_uncovered cover c2"
    by (simp add: spec_uncovered_def assms)
  show g: "spec_gain cover c1 = spec_gain cover c2"
    by (simp add: spec_gain_def u fun_eq_iff)
  show c: "spec_candidates nPrimes c1 = spec_candidates nPrimes c2"
    by (simp add: spec_candidates_def assms)
  show "spec_best nPrimes cover c1 = spec_best nPrimes cover c2"
    by (simp add: spec_best_def g c)
qed

lemma pickBest_is_spec_best:
  assumes inv: "rowsInv cover chosen cr"
    and cand: "\<exists>j < nPrimes. j \<notin> set chosen"
  shows "\<exists>j. fst (pickBest nPrimes cover chosen cr) = Some j \<and>
             spec_best nPrimes cover chosen = Some j"
proof -
  let ?g = "\<lambda>j. int (coverCount cover cr j)"
  obtain b' c' where f: "fold (bestStep cover chosen cr) [0..<nPrimes] (None, - 1) = (b', c')"
    by (cases "fold (bestStep cover chosen cr) [0..<nPrimes] (None, - 1)") auto
  from fold_bestStep[OF f]
  have all: "\<forall>j \<in> set [0..<nPrimes]. j \<notin> set chosen \<longrightarrow> ?g j \<le> c'"
    and alt: "(b', c') = (None, - 1) \<or>
      (\<exists>pre j post. [0..<nPrimes] = pre @ j # post \<and> b' = Some j \<and> j \<notin> set chosen \<and>
         c' = ?g j \<and> - 1 < c' \<and> (\<forall>i \<in> set pre. i \<notin> set chosen \<longrightarrow> ?g i < c'))"
    by blast+
  from cand obtain j0 where j0: "j0 < nPrimes" "j0 \<notin> set chosen" by blast
  with all have "0 \<le> c'" by force
  with alt obtain pre j post where h: "[0..<nPrimes] = pre @ j # post" "b' = Some j"
      "j \<notin> set chosen" "c' = ?g j" "\<forall>i \<in> set pre. i \<notin> set chosen \<longrightarrow> ?g i < c'"
    by auto
  have gain: "spec_gain cover chosen i = coverCount cover cr i" for i
    using coverCount_gain[OF inv] by simp
  have cands: "spec_candidates nPrimes chosen =
      filter (\<lambda>j. j \<notin> set chosen) pre @ j # filter (\<lambda>j. j \<notin> set chosen) post"
    unfolding spec_candidates_def h(1) using h(3) by simp
  let ?P = "\<lambda>j. \<forall>j' \<in> set (spec_candidates nPrimes chosen).
                 spec_gain cover chosen j' \<le> spec_gain cover chosen j"
  have jc: "j \<in> set (spec_candidates nPrimes chosen)" unfolding cands by simp
  have Pj: "?P j"
  proof
    fix j' assume "j' \<in> set (spec_candidates nPrimes chosen)"
    then have "j' \<in> set [0..<nPrimes]" "j' \<notin> set chosen" by (auto simp: spec_candidates_def)
    with all h(4) show "spec_gain cover chosen j' \<le> spec_gain cover chosen j"
      unfolding gain by force
  qed
  have nP: "\<forall>x \<in> set (filter (\<lambda>j. j \<notin> set chosen) pre). \<not> ?P x"
  proof
    fix x assume "x \<in> set (filter (\<lambda>j. j \<notin> set chosen) pre)"
    then have "?g x < ?g j" using h(4,5) by auto
    then have "\<not> spec_gain cover chosen j \<le> spec_gain cover chosen x" unfolding gain by simp
    then show "\<not> ?P x" using jc by blast
  qed
  have "spec_best nPrimes cover chosen = Some j"
    unfolding spec_best_def
    by (subst cands) (rule find_first[OF nP Pj])
  moreover have "fst (pickBest nPrimes cover chosen cr) = Some j"
    by (simp add: pickBest_def f h(2))
  ultimately show ?thesis by blast
qed

lemma uncovered_has_candidate:
  assumes ok: "chartOK nPrimes cover" and un: "spec_uncovered cover chosen \<noteq> []"
  shows "\<exists>j \<in> set (spec_candidates nPrimes chosen). spec_gain cover chosen j \<noteq> 0"
proof -
  from un obtain i where i: "i \<in> set (spec_uncovered cover chosen)"
    by (cases "spec_uncovered cover chosen") auto
  then have il: "i < length cover" and nc: "\<not> (\<exists>j \<in> set chosen. j \<in> set (cover ! i))"
    by (auto simp: spec_uncovered_def)
  from ok il have "cover ! i \<noteq> []" "set (cover ! i) \<subseteq> {0..<nPrimes}"
    by (auto simp: chartOK_def)
  then obtain j where j: "j \<in> set (cover ! i)" "j < nPrimes"
    by (cases "cover ! i") auto
  with nc have "j \<notin> set chosen" by blast
  then have "j \<in> set (spec_candidates nPrimes chosen)"
    using j(2) by (simp add: spec_candidates_def)
  moreover have "i \<in> set (filter (\<lambda>i. j \<in> set (cover ! i)) (spec_uncovered cover chosen))"
    using i j(1) by simp
  then have "spec_gain cover chosen j \<noteq> 0"
    unfolding spec_gain_def by (metis length_0_conv empty_iff empty_set)
  ultimately show ?thesis by blast
qed

lemma greedy_refines:
  "chartOK nPrimes cover \<Longrightarrow> rowsInv cover chosen cr \<Longrightarrow> set chosen = set chosen' \<Longrightarrow>
   set (greedyLoop nPrimes cover chosen cr) = set (spec_greedy nPrimes cover chosen')"
proof (induction nPrimes cover chosen cr arbitrary: chosen' rule: greedyLoop.induct)
  case (1 nPrimes cover chosen cr)
  note sc = spec_cong[OF "1.prems"(3)[symmetric]]
  show ?case
  proof (cases "length cr < length cover")
    case False
    then have "spec_uncovered cover chosen' = []"
      using rowsInv_all_covered[OF "1.prems"(2)] sc(1) by simp
    then show ?thesis using False "1.prems"(3)
      by (subst greedyLoop.simps, subst spec_greedy.simps) simp
  next
    case True
    then have un: "spec_uncovered cover chosen \<noteq> []"
      using rowsInv_all_covered[OF "1.prems"(2)] by simp
    from uncovered_has_candidate[OF "1.prems"(1) un]
    obtain j0 where j0: "j0 \<in> set (spec_candidates nPrimes chosen)"
      "spec_gain cover chosen j0 \<noteq> 0" by blast
    then have "\<exists>j < nPrimes. j \<notin> set chosen" by (auto simp: spec_candidates_def)
    from pickBest_is_spec_best[OF "1.prems"(2) this]
    obtain j where j: "fst (pickBest nPrimes cover chosen cr) = Some j"
      "spec_best nPrimes cover chosen = Some j" by blast
    have fresh: "j \<notin> set chosen" using spec_best_fresh[OF j(2)] by simp
    have inv': "rowsInv cover (set_add j chosen) (markCovered cover (set_add j chosen) cr)"
      by (rule rowsInv_step[OF "1.prems"(2)])
    have sets: "set (set_add j chosen) = set (chosen' @ [j])"
      using "1.prems"(3) by (simp add: set_set_add)
    have code: "greedyLoop nPrimes cover chosen cr =
        greedyLoop nPrimes cover (set_add j chosen) (markCovered cover (set_add j chosen) cr)"
      using True j(1) by (subst greedyLoop.simps) simp
    have stop: "\<not> (\<forall>j \<in> set (spec_candidates nPrimes chosen'). spec_gain cover chosen' j = 0)"
      unfolding sc(2,3) using j0 by auto
    have un': "spec_uncovered cover chosen' \<noteq> []" unfolding sc(1) by (rule un)
    have best': "spec_best nPrimes cover chosen' = Some j" unfolding sc(4) by (rule j(2))
    have spec: "spec_greedy nPrimes cover chosen' = spec_greedy nPrimes cover (chosen' @ [j])"
      by (subst spec_greedy.simps) (simp only: un' stop best' if_False option.case)
    show ?thesis unfolding code spec
      by (rule "1.IH"[OF True j(1) "1.prems"(1) inv' sets])
  qed
qed

lemma set_essentials_fold:
  "set (fold (\<lambda>row chosen. if length row = 1 then set_add (row ! 0) chosen else chosen) rws acc) =
   set acc \<union> {row ! 0 | row. row \<in> set rws \<and> length row = 1}"
  by (induction rws arbitrary: acc) (auto simp: set_set_add)

lemma essentials_spec:
  assumes "chartOK nPrimes cover"
  shows "set (essentials cover) = set (spec_essential nPrimes cover)"
proof -
  have single: "length row = 1 \<longleftrightarrow> (\<exists>j. set row = {j})" if "row \<in> set cover" for row
  proof
    assume "length row = 1"
    then show "\<exists>j. set row = {j}" by (auto simp: length_Suc_conv)
  next
    assume "\<exists>j. set row = {j}"
    then obtain j where j: "set row = {j}" by blast
    have "distinct row" using assms that by (simp add: chartOK_def)
    then have "length row = card (set row)" by (simp add: distinct_card)
    then show "length row = 1" using j by simp
  qed
  have a: "set (essentials cover) = {row ! 0 | row. row \<in> set cover \<and> length row = 1}"
    unfolding essentials_def set_essentials_fold by simp
  show ?thesis
  proof (intro set_eqI iffI)
    fix j assume "j \<in> set (essentials cover)"
    then obtain row where row: "row \<in> set cover" "length row = 1" "j = row ! 0"
      unfolding a by blast
    then have r: "row = [j]" by (auto simp: length_Suc_conv)
    then have "j < nPrimes" using assms row(1) by (auto simp: chartOK_def)
    moreover have "\<exists>row \<in> set cover. set row = {j}"
      using row(1) r by (intro bexI[of _ row]) simp_all
    ultimately show "j \<in> set (spec_essential nPrimes cover)"
      by (simp add: spec_essential_def)
  next
    fix j assume "j \<in> set (spec_essential nPrimes cover)"
    then obtain row where row: "row \<in> set cover" "set row = {j}"
      by (auto simp: spec_essential_def)
    then have l1: "length row = 1" using single by blast
    then obtain x where x: "row = [x]" by (auto simp: length_Suc_conv)
    with row(2) have "x = j" by simp
    with x have "j = row ! 0" by simp
    then have "\<exists>r. j = r ! 0 \<and> r \<in> set cover \<and> length r = 1" using row(1) l1 by blast
    then show "j \<in> set (essentials cover)" unfolding a by simp
  qed
qed

lemma select_refines:
  assumes "chartOK (length primeList) (buildCover primeList minBin)"
  shows "set (selectImplicants primeList minBin) =
         set (spec_select (length primeList) (buildCover primeList minBin))"
  unfolding selectImplicants_def spec_select_def Let_def
  by (rule greedy_refines[OF assms rowsInv_init essentials_spec[OF assms]])

definition minimizerPrimes :: "nat list \<Rightarrow> nat list \<Rightarrow> nat \<Rightarrow> string list" where
  "minimizerPrimes minterms dontcares W =
     primeImplicants (map (\<lambda>m. toBin m W) (minterms @ dontcares))"

definition minimizerCover :: "nat list \<Rightarrow> nat list \<Rightarrow> nat \<Rightarrow> nat list list" where
  "minimizerCover minterms dontcares W =
     buildCover (minimizerPrimes minterms dontcares W) (map (\<lambda>m. toBin m W) minterms)"

lemma minimizerCover_ok:
  "chartOK (length (minimizerPrimes minterms dontcares W)) (minimizerCover minterms dontcares W)"
  unfolding chartOK_def minimizerCover_def minimizerPrimes_def
  using minimizer_chart_ok by blast

text \<open>
  Claim C2. In the minimizer the chosen implicants are, as a set, the ones the
  specification's selection yields on the prime implicant chart: the implicants that
  are the only one covering some minterm, then, while a minterm is uncovered, the
  not-yet-chosen implicant covering most uncovered minterms, the lowest index among
  equals, until every minterm is covered or no implicant covers a remaining one. The
  second conjunct says where the minimizer uses this selection.
\<close>

theorem selection_phase:
  "set (selectImplicants (minimizerPrimes minterms dontcares W) (map (\<lambda>m. toBin m W) minterms)) =
   set (spec_select (length (minimizerPrimes minterms dontcares W))
          (minimizerCover minterms dontcares W)) \<and>
   (minterms @ dontcares \<noteq> [] \<longrightarrow>
    implicants (qmSimplify minterms dontcares varNames mode) =
      map (\<lambda>j. minimizerPrimes minterms dontcares (length varNames) ! j)
        (selectImplicants (minimizerPrimes minterms dontcares (length varNames))
           (map (\<lambda>m. toBin m (length varNames)) minterms)))"
proof
  show "set (selectImplicants (minimizerPrimes minterms dontcares W) (map (\<lambda>m. toBin m W) minterms)) =
   set (spec_select (length (minimizerPrimes minterms dontcares W))
          (minimizerCover minterms dontcares W))"
    using select_refines[OF minimizerCover_ok[unfolded minimizerCover_def]]
    by (simp add: minimizerCover_def)
  show "minterms @ dontcares \<noteq> [] \<longrightarrow>
    implicants (qmSimplify minterms dontcares varNames mode) =
      map (\<lambda>j. minimizerPrimes minterms dontcares (length varNames) ! j)
        (selectImplicants (minimizerPrimes minterms dontcares (length varNames))
           (map (\<lambda>m. toBin m (length varNames)) minterms))"
    by (simp add: qmSimplify_def minimizerPrimes_def Let_def)
qed

lemma selection_example:
  "minimizerPrimes [0, 1, 2, 5, 6, 7] [] 3 = [''00-'', ''0-0'', ''-01'', ''-10'', ''1-1'', ''11-'']"
  "minimizerCover [0, 1, 2, 5, 6, 7] [] 3 = [[0, 1], [0, 2], [1, 3], [2, 4], [3, 5], [4, 5]]"
  "selectImplicants [''00-'', ''0-0'', ''-01'', ''-10'', ''1-1'', ''11-'']
     (map (\<lambda>m. toBin m 3) [0, 1, 2, 5, 6, 7]) = [0, 3, 4]"
  by code_simp+

theorem selection_phase_witness:
  "set (spec_select 6 [[0, 1], [0, 2], [1, 3], [2, 4], [3, 5], [4, 5]]) = {0, 3, 4} \<and>
   implicants (qmSimplify [0, 1, 2, 5, 6, 7] [] [''A'', ''B'', ''C''] ''SOP'') =
     [''00-'', ''-10'', ''1-1'']"
proof -
  note t = selection_phase[of "[0, 1, 2, 5, 6, 7]" "[]" 3 "[''A'', ''B'', ''C'']" "''SOP''"]
  have len: "length [''A'', ''B'', ''C''] = 3"
    "length [''00-'', ''0-0'', ''-01'', ''-10'', ''1-1'', ''11-''] = 6"
    by simp_all
  have ne: "[0, 1, 2, 5, 6, 7] @ [] \<noteq> ([] :: nat list)" by simp
  have a: "set [0, 3, 4] = set (spec_select 6 [[0, 1], [0, 2], [1, 3], [2, 4], [3, 5], [4, 5]])"
    using t[THEN conjunct1] unfolding selection_example len .
  have b: "implicants (qmSimplify [0, 1, 2, 5, 6, 7] [] [''A'', ''B'', ''C''] ''SOP'') =
      map (\<lambda>j. [''00-'', ''0-0'', ''-01'', ''-10'', ''1-1'', ''11-''] ! j) [0, 3, 4]"
    using t[THEN conjunct2, rule_format, OF ne] unfolding len selection_example .
  show ?thesis using a[symmetric] b by simp
qed

section \<open>Rendering of the product of sums\<close>

text \<open>
  The sum term as the specification words it: the non-dash positions of the implicant
  in order, each giving the plain variable for the symbol \<open>0\<close> and the variable with an
  apostrophe for the symbol \<open>1\<close>, joined by \<^verbatim>\<open> + \<close> inside parentheses.
\<close>

definition spec_sumLiteral :: "string \<Rightarrow> char \<Rightarrow> string" where
  "spec_sumLiteral v c = (if c = CHR ''1'' then v @ [apostrophe] else v)"

definition spec_sumTerm :: "string list \<Rightarrow> string \<Rightarrow> string" where
  "spec_sumTerm vars msk =
     ''('' @ join '' + '' (map (\<lambda>i. spec_sumLiteral (varAt vars i) (msk ! i))
                              (filter (\<lambda>i. msk ! i \<noteq> CHR ''-'') [0..<length msk])) @ '')''"

text \<open>The literals that \<open>posLoop\<close> appends, from position \<open>i\<close> on.\<close>

fun sumLiterals :: "string \<Rightarrow> string list \<Rightarrow> nat \<Rightarrow> string list" where
  "sumLiterals [] vars i = []"
| "sumLiterals (c # msk) vars i =
     (if c = CHR ''-'' then sumLiterals msk vars (i + 1)
      else (if c = CHR ''0'' then varAt vars i else varAt vars i @ [apostrophe])
           # sumLiterals msk vars (i + 1))"

lemma varAt_ne:
  assumes "[] \<notin> set vars"
  shows "varAt vars i \<noteq> []"
proof (cases "i < length vars")
  case True
  then have "vars ! i \<in> set vars" by simp
  with assms have "vars ! i \<noteq> []" by metis
  then show ?thesis using True by (simp add: varAt_def)
next
  case False
  then show ?thesis by (simp add: varAt_def)
qed

lemma posLoop_literals:
  "[] \<notin> set vars \<Longrightarrow>
   posLoop msk vars i s =
     (case sumLiterals msk vars i of [] \<Rightarrow> s
      | l # ls \<Rightarrow> (if s = [] then [] else s @ '' + '') @ join '' + '' (l # ls))"
proof (induction msk arbitrary: i s)
  case Nil
  then show ?case by simp
next
  case (Cons c msk)
  show ?case
  proof (cases "c = CHR ''-''")
    case True
    then show ?thesis using Cons.IH[OF Cons.prems, of "i + 1" s] by simp
  next
    case False
    let ?l = "if c = CHR ''0'' then varAt vars i else varAt vars i @ [apostrophe]"
    let ?s = "(if s \<noteq> [] then s @ '' + '' else s) @ ?l"
    have ne: "?s \<noteq> []" using varAt_ne[OF Cons.prems, of i] by simp
    have "posLoop (c # msk) vars i s = posLoop msk vars (i + 1) ?s" using False by simp
    also have "\<dots> = (case sumLiterals msk vars (i + 1) of [] \<Rightarrow> ?s
        | l # ls \<Rightarrow> (if ?s = [] then [] else ?s @ '' + '') @ join '' + '' (l # ls))"
      by (rule Cons.IH[OF Cons.prems])
    also have "\<dots> = (if s = [] then [] else s @ '' + '') @
        join '' + '' (?l # sumLiterals msk vars (i + 1))"
      using ne by (cases "sumLiterals msk vars (i + 1)") auto
    finally show ?thesis using False by simp
  qed
qed

lemma sumLiterals_spec:
  "alphabetOK msk \<Longrightarrow>
   sumLiterals msk vars i =
     map (\<lambda>j. spec_sumLiteral (varAt vars (i + j)) (msk ! j))
       (filter (\<lambda>j. msk ! j \<noteq> CHR ''-'') [0..<length msk])"
proof (induction msk arbitrary: i)
  case Nil
  then show ?case by simp
next
  case (Cons c msk)
  have al: "alphabetOK msk" and c: "c = CHR ''-'' \<or> c = CHR ''0'' \<or> c = CHR ''1''"
    using Cons.prems by (auto simp: alphabetOK_def)
  have up: "[0..<length (c # msk)] = 0 # map Suc [0..<length msk]"
    by (simp add: upt_conv_Cons map_Suc_upt del: upt_Suc)
  have tl: "map (\<lambda>j. spec_sumLiteral (varAt vars (i + j)) ((c # msk) ! j))
        (filter (\<lambda>j. (c # msk) ! j \<noteq> CHR ''-'') (map Suc [0..<length msk])) =
      sumLiterals msk vars (i + 1)"
    unfolding Cons.IH[OF al, of "i + 1"] by (simp add: filter_map comp_def)
  show ?case unfolding up using c tl by (auto simp: spec_sumLiteral_def)
qed

lemma posTerm_spec:
  assumes "alphabetOK msk" "[] \<notin> set vars"
  shows "posTerm vars msk =
         (if \<forall>c \<in> set msk. c = CHR ''-'' then ''1'' else spec_sumTerm vars msk)"
proof -
  have empty: "sumLiterals msk vars i = [] \<longleftrightarrow> (\<forall>c \<in> set msk. c = CHR ''-'')" for i
    by (induction msk arbitrary: i) auto
  have sp: "sumLiterals msk vars 0 =
     map (\<lambda>j. spec_sumLiteral (varAt vars j) (msk ! j))
       (filter (\<lambda>j. msk ! j \<noteq> CHR ''-'') [0..<length msk])"
    using sumLiterals_spec[OF assms(1), of vars 0] by simp
  show ?thesis
  proof (cases "sumLiterals msk vars 0")
    case Nil
    then show ?thesis using empty[of 0] posLoop_literals[OF assms(2), of msk 0 "[]"]
      by (simp add: posTerm_def)
  next
    case (Cons l ls)
    have ne: "join '' + '' (l # ls) \<noteq> []"
    proof -
      have "l \<in> set (sumLiterals msk vars 0)" using Cons by simp
      then obtain j where "l = spec_sumLiteral (varAt vars j) (msk ! j)"
        unfolding sp by auto
      then have "l \<noteq> []" using varAt_ne[OF assms(2), of j]
        by (simp add: spec_sumLiteral_def)
      then show ?thesis by (cases ls) auto
    qed
    have "posLoop msk vars 0 [] = join '' + '' (l # ls)"
      using posLoop_literals[OF assms(2), of msk 0 "[]"] Cons by simp
    moreover have "\<not> (\<forall>c \<in> set msk. c = CHR ''-'')" using empty[of 0] Cons by simp
    ultimately show ?thesis using ne Cons sp
      by (simp add: posTerm_def spec_sumTerm_def Let_def)
  qed
qed

lemma join_empty_sep: "join [] ys = concat ys"
  by (induction ys rule: induct_list012) simp_all

text \<open>
  Claim C7. Minterms 0 and 3 over \<open>A\<close>, \<open>B\<close> in POS mode give the implicants \<open>00\<close> and
  \<open>11\<close> and the text \<^verbatim>\<open>(A + B)(A' + B')\<close>. In general the text of a non-empty list of
  implicants is the concatenation of their sum terms with nothing between them; and
  for every implicant over \<open>0\<close>, \<open>1\<close>, \<open>-\<close> and every list of non-empty variable names
  the sum term is the one the specification words, the non-dash positions joined by
  \<^verbatim>\<open> + \<close> inside parentheses, the plain variable for \<open>0\<close> and the variable with an
  apostrophe for \<open>1\<close> (and \<^verbatim>\<open>1\<close> for an implicant of dashes only).
\<close>

theorem pos_rendering:
  "qmSimplify [0, 3] [] [''A'', ''B''] ''POS'' =
     \<lparr>implicants = [''00'', ''11''], result = ''(A + B)(A' + B'' @ CHR 0x27 # '')''\<rparr> \<and>
   implicantsToPOS (x # xs) vars = concat (map (posTerm vars) (x # xs)) \<and>
   (alphabetOK msk \<longrightarrow> [] \<notin> set vars \<longrightarrow>
      posTerm vars msk =
        (if \<forall>c \<in> set msk. c = CHR ''-'' then ''1'' else spec_sumTerm vars msk)) \<and>
   (impls \<noteq> [] \<longrightarrow> [] \<notin> set vars \<longrightarrow>
    (\<forall>m \<in> set impls. alphabetOK m \<and> (\<exists>c \<in> set m. c \<noteq> CHR ''-'')) \<longrightarrow>
      implicantsToPOS impls vars = concat (map (spec_sumTerm vars) impls))"
proof (intro conjI impI)
  show "qmSimplify [0, 3] [] [''A'', ''B''] ''POS'' =
     \<lparr>implicants = [''00'', ''11''], result = ''(A + B)(A' + B'' @ CHR 0x27 # '')''\<rparr>"
    by code_simp
next
  show "implicantsToPOS (x # xs) vars = concat (map (posTerm vars) (x # xs))"
    by (simp add: implicantsToPOS_def join_empty_sep)
next
  assume "alphabetOK msk" "[] \<notin> set vars"
  then show "posTerm vars msk =
        (if \<forall>c \<in> set msk. c = CHR ''-'' then ''1'' else spec_sumTerm vars msk)"
    by (rule posTerm_spec)
next
  assume ne: "impls \<noteq> []" and vs: "[] \<notin> set vars"
    and ms: "\<forall>m \<in> set impls. alphabetOK m \<and> (\<exists>c \<in> set m. c \<noteq> CHR ''-'')"
  have "posTerm vars m = spec_sumTerm vars m" if "m \<in> set impls" for m
    using posTerm_spec[OF _ vs, of m] ms that by auto
  then have "map (posTerm vars) impls = map (spec_sumTerm vars) impls"
    by (intro map_cong) auto
  then have "concat (map (posTerm vars) impls) = concat (map (spec_sumTerm vars) impls)"
    by (rule arg_cong)
  then show "implicantsToPOS impls vars = concat (map (spec_sumTerm vars) impls)"
    using ne by (simp add: implicantsToPOS_def join_empty_sep)
qed

theorem pos_rendering_witness:
  "posTerm [''A'', ''B'', ''C''] ''010'' = ''(A + B' + C)'' \<and>
   posTerm [''A'', ''B'', ''C''] ''-1-'' = ''(B')'' \<and>
   posTerm [''A'', ''B'', ''C''] ''---'' = ''1'' \<and>
   implicantsToPOS [''010'', ''1-0''] [''A'', ''B'', ''C''] = ''(A + B' + C)(A' + C)''"
proof -
  let ?V = "[''A'', ''B'', ''C'']"
  have vs: "[] \<notin> set ?V" by simp
  have al: "alphabetOK ''010''" "alphabetOK ''-1-''" "alphabetOK ''---''"
    by (simp_all add: alphabetOK_def)
  have ims: "[''010'', ''1-0''] \<noteq> ([] :: string list)"
    "\<forall>m \<in> set [''010'', ''1-0'']. alphabetOK m \<and> (\<exists>c \<in> set m. c \<noteq> CHR ''-'')"
    by (simp_all add: alphabetOK_def)
  have sp: "spec_sumTerm ?V ''010'' = ''(A + B' + C)''" "spec_sumTerm ?V ''-1-'' = ''(B')''"
    "spec_sumTerm ?V ''1-0'' = ''(A' + C)''"
    by code_simp+
  have 1: "posTerm ?V ''010'' = ''(A + B' + C)''"
    using pos_rendering[where msk = "''010''" and vars = ?V, THEN conjunct2, THEN conjunct2,
        THEN conjunct1, rule_format, OF al(1) vs]
    by (simp add: sp)
  have 2: "posTerm ?V ''-1-'' = ''(B')''"
    using pos_rendering[where msk = "''-1-''" and vars = ?V, THEN conjunct2, THEN conjunct2,
        THEN conjunct1, rule_format, OF al(2) vs]
    by (simp add: sp)
  have 3: "posTerm ?V ''---'' = ''1''"
    using pos_rendering[where msk = "''---''" and vars = ?V, THEN conjunct2, THEN conjunct2,
        THEN conjunct1, rule_format, OF al(3) vs]
    by simp
  have 4: "implicantsToPOS [''010'', ''1-0''] ?V = ''(A + B' + C)(A' + C)''"
    using pos_rendering[where impls = "[''010'', ''1-0'']" and vars = ?V, THEN conjunct2,
        THEN conjunct2, THEN conjunct2, rule_format, OF ims(1) vs ims(2)[rule_format]]
    by (simp add: sp)
  show ?thesis using 1 2 3 4 by blast
qed

section \<open>Round trip of the minimized sum of products\<close>

subsection \<open>Implicants cover terms only\<close>

text \<open>
  Two strings combine when they differ in exactly one position; a string of zeros and
  ones that the combination covers is then covered by one of the two.
\<close>

definition bits01 :: "string \<Rightarrow> bool" where
  "bits01 x = (set x \<subseteq> {CHR ''0'', CHR ''1''})"

lemma canCombine_from_one:
  "length a = length b \<Longrightarrow> canCombine_from a b 1 \<Longrightarrow> a = b"
proof (induction a arbitrary: b)
  case Nil
  then show ?case by simp
next
  case (Cons x a)
  then obtain y b' where b: "b = y # b'" by (cases b) auto
  with Cons.prems have "x = y" "canCombine_from a b' 1"
    by (auto simp: charAt0_def Let_def split: if_splits)
  with Cons.IH[of b'] Cons.prems b show ?case by simp
qed

lemma covers_combine_split:
  "length a = length b \<Longrightarrow> length x = length a \<Longrightarrow> alphabetOK a \<Longrightarrow> alphabetOK b \<Longrightarrow>
   bits01 x \<Longrightarrow> canCombine_from a b 0 \<Longrightarrow> covers (combine a b) x \<Longrightarrow>
   covers a x \<or> covers b x"
proof (induction a arbitrary: b x)
  case Nil
  then show ?case by simp
next
  case (Cons c a)
  from Cons.prems(1) obtain d b' where b: "b = d # b'" by (cases b) auto
  from Cons.prems(2) obtain e x' where x: "x = e # x'" by (cases x) auto
  have len: "length a = length b'" "length x' = length a" using Cons.prems(1,2) b x by auto
  have al: "alphabetOK a" "alphabetOK b'" "bits01 x'"
    using Cons.prems(3,4,5) b x by (auto simp: alphabetOK_def bits01_def)
  have hd: "c \<in> {CHR ''0'', CHR ''1'', CHR ''-''}" "d \<in> {CHR ''0'', CHR ''1'', CHR ''-''}"
    "e \<in> {CHR ''0'', CHR ''1''}"
    using Cons.prems(3,4,5) b x by (auto simp: alphabetOK_def bits01_def)
  show ?case
  proof (cases "c = d")
    case True
    then have cc: "canCombine_from a b' 0" using Cons.prems(6) b by (simp add: charAt0_def)
    have cv: "covers (combine a b') x'" and h: "c = CHR ''-'' \<or> c = e"
      using Cons.prems(7) b x True by (auto simp: charAt0_def split: if_splits)
    from Cons.IH[OF len al cc cv] show ?thesis using h b x True
      by (auto simp: charAt0_def)
  next
    case False
    then have "canCombine_from a b' 1" using Cons.prems(6) b by (simp add: charAt0_def)
    from canCombine_from_one[OF len(1) this] have eq: "a = b'" .
    have "combine a a = a" for a :: string by (induction a) (auto simp: charAt0_def)
    then have cv: "covers a x'" using Cons.prems(7) b x False eq by (simp add: charAt0_def)
    show ?thesis using hd False cv eq b x by (auto simp: charAt0_def)
  qed
qed

lemma length_combine [simp]: "length (combine a b) = length a"
  by (induction a arbitrary: b) auto

lemma covers_bits_eq:
  "length p = length x \<Longrightarrow> bits01 p \<Longrightarrow> covers p x \<Longrightarrow> x = p"
proof (induction p arbitrary: x)
  case Nil
  then show ?case by simp
next
  case (Cons c p)
  then obtain e x' where x: "x = e # x'" by (cases x) auto
  from Cons.prems x have "c \<noteq> CHR ''-''" "bits01 p" "length p = length x'"
    by (auto simp: bits01_def)
  with Cons.prems x Cons.IH[of x'] show ?case by (auto simp: charAt0_def split: if_splits)
qed

text \<open>An implicant is sound for a set of terms: it has the width, and covers terms only.\<close>

definition soundFor :: "nat \<Rightarrow> string set \<Rightarrow> string \<Rightarrow> bool" where
  "soundFor n T p =
     (length p = n \<and> alphabetOK p \<and> (\<forall>x. length x = n \<and> bits01 x \<and> covers p x \<longrightarrow> x \<in> T))"

definition allSound :: "nat \<Rightarrow> string set \<Rightarrow> groups \<Rightarrow> bool" where
  "allSound n T gs = (\<forall>k. \<forall>it \<in> set (group_get gs k). soundFor n T (bin it))"

lemma soundFor_combine:
  assumes "soundFor n T a" "soundFor n T b" "canCombine a b"
  shows "soundFor n T (combine a b)"
  unfolding soundFor_def
proof (intro conjI allI impI)
  show "length (combine a b) = n" using assms(1) by (simp add: soundFor_def)
  show "alphabetOK (combine a b)" using assms(1) by (simp add: soundFor_def alphabetOK_combine)
  fix x assume x: "length x = n \<and> bits01 x \<and> covers (combine a b) x"
  have "covers a x \<or> covers b x"
    using assms x by (intro covers_combine_split) (auto simp: soundFor_def canCombine_def)
  then show "x \<in> T" using assms(1,2) x by (auto simp: soundFor_def)
qed

lemma products_sound:
  assumes "(k, c) \<in> products gs" "allSound n T gs"
  shows "soundFor n T (bin c)"
proof -
  from assms(1) obtain k1 k2 a b where "a \<in> set (group_get gs k1)" "b \<in> set (group_get gs k2)"
    "canCombine (bin a) (bin b)" "c = newItem a b"
    by (auto simp: products_def)
  then show ?thesis using assms(2) soundFor_combine[of n T "bin a" "bin b"]
    by (auto simp: allSound_def newItem_def)
qed

lemma qmRound_sound:
  assumes r: "qmRound gs = (ng, primes, anyC)" and s: "allSound n T gs"
  shows "allSound n T ng" "\<forall>p \<in> set primes. soundFor n T p"
proof -
  show "allSound n T ng"
    unfolding allSound_def using qmRound_products[OF r] products_sound[OF _ s] by blast
  obtain gs' ng0 where cp: "combinePairs (group_keys gs) gs [] False = (gs', ng0, anyC)"
    and pr: "primes = collectPrimes gs'"
    using r by (auto simp: qmRound_def split: prod.splits)
  show "\<forall>p \<in> set primes. soundFor n T p"
  proof
    fix p assume "p \<in> set primes"
    then obtain k it where it: "it \<in> set (group_get gs' k)" "p = bin it"
      unfolding pr collectPrimes_mem by blast
    from core_mem[OF combinePairs_core[OF cp] it(1)] obtain it0 where
      it0: "it0 \<in> set (group_get gs k)" "core it0 = core it" by blast
    from it0(1) s have "soundFor n T (bin it0)" unfolding allSound_def by blast
    moreover from it0(2) have "bin it0 = bin it" by (simp add: core_def)
    ultimately show "soundFor n T p" using it(2) by simp
  qed
qed

lemma qmLoop_sound:
  "qmLoop gs levels = (gsF, levelsF) \<Longrightarrow> allSound n T gs \<Longrightarrow>
   \<forall>p \<in> set (concat levels). soundFor n T p \<Longrightarrow>
   allSound n T gsF \<and> (\<forall>p \<in> set (concat levelsF). soundFor n T p)"
proof (induction gs levels rule: qmLoop.induct)
  case (1 gs levels)
  obtain ng primes anyC where r: "qmRound gs = (ng, primes, anyC)" by (cases "qmRound gs") auto
  note s = qmRound_sound[OF r "1.prems"(2)]
  have lv: "\<forall>p \<in> set (concat (levels @ [primes])). soundFor n T p"
    using "1.prems"(3) s(2) by auto
  show ?case
  proof (cases anyC)
    case True
    then have "qmLoop ng (levels @ [primes]) = (gsF, levelsF)"
      using "1.prems"(1) r by (subst (asm) qmLoop.simps) simp
    from "1.IH"[OF r[symmetric] refl True this s(1) lv] show ?thesis .
  next
    case False
    then have "gsF = ng" "levelsF = levels @ [primes]"
      using "1.prems"(1) r by (subst (asm) qmLoop.simps, simp)+
    then show ?thesis using s(1) lv by simp
  qed
qed

lemma primeImplicants_sound:
  assumes "\<forall>b \<in> set bins. length b = n \<and> bits01 b" "p \<in> set (primeImplicants bins)"
  shows "soundFor n (set bins) p"
proof -
  obtain gsF levelsF where l: "qmLoop (initGroups bins) [] = (gsF, levelsF)"
    by (cases "qmLoop (initGroups bins) []") auto
  have init: "allSound n (set bins) (initGroups bins)"
    unfolding allSound_def
  proof (intro allI ballI)
    fix k it assume "it \<in> set (group_get (initGroups bins) k)"
    then have b: "bin it \<in> set bins" by (auto simp: group_get_initGroups)
    with assms(1) have lb: "length (bin it) = n" "bits01 (bin it)" by auto
    then have "alphabetOK (bin it)" by (auto simp: bits01_def alphabetOK_def)
    moreover have "x \<in> set bins" if "length x = n" "covers (bin it) x" for x
      using covers_bits_eq[of "bin it" x] lb that b by simp
    ultimately show "soundFor n (set bins) (bin it)" using lb by (simp add: soundFor_def)
  qed
  from qmLoop_sound[OF l init] have "allSound n (set bins) gsF"
    "\<forall>p \<in> set (concat levelsF). soundFor n (set bins) p" by simp_all
  moreover have "p \<in> set (concat levelsF) \<union> binsOf gsF"
    using assms(2) by (simp add: primeImplicants_def l set_finalPrimes)
  ultimately show ?thesis by (auto simp: allSound_def binsOf_mem)
qed

subsection \<open>The selection covers every minterm\<close>

lemma greedy_covers:
  "chartOK nPrimes cover \<Longrightarrow> rowsInv cover chosen cr \<Longrightarrow> set chosen \<subseteq> {0..<nPrimes} \<Longrightarrow>
   set (greedyLoop nPrimes cover chosen cr) \<subseteq> {0..<nPrimes} \<and>
   (\<forall>i < length cover. \<exists>j \<in> set (cover ! i). j \<in> set (greedyLoop nPrimes cover chosen cr))"
proof (induction nPrimes cover chosen cr rule: greedyLoop.induct)
  case (1 nPrimes cover chosen cr)
  show ?case
  proof (cases "length cr < length cover")
    case False
    then have "spec_uncovered cover chosen = []"
      using rowsInv_all_covered[OF "1.prems"(2)] by simp
    then have "{0..<length cover} - coveredSet cover chosen = {}"
      using set_spec_uncovered[of cover chosen] by simp
    then have "\<forall>i < length cover. \<exists>j \<in> set (cover ! i). j \<in> set chosen"
      by (auto simp: coveredSet_def)
    moreover have "greedyLoop nPrimes cover chosen cr = chosen"
      using False by (subst greedyLoop.simps) simp
    ultimately show ?thesis using "1.prems"(3) by simp
  next
    case True
    then have un: "spec_uncovered cover chosen \<noteq> []"
      using rowsInv_all_covered[OF "1.prems"(2)] by simp
    from uncovered_has_candidate[OF "1.prems"(1) un]
    have "\<exists>j < nPrimes. j \<notin> set chosen" by (auto simp: spec_candidates_def)
    from pickBest_is_spec_best[OF "1.prems"(2) this]
    obtain j where j: "fst (pickBest nPrimes cover chosen cr) = Some j" by blast
    have jn: "j < nPrimes" using pickBest_Some[OF j] by simp
    have inv': "rowsInv cover (set_add j chosen) (markCovered cover (set_add j chosen) cr)"
      by (rule rowsInv_step[OF "1.prems"(2)])
    have sub: "set (set_add j chosen) \<subseteq> {0..<nPrimes}"
      using "1.prems"(3) jn by (simp add: set_set_add)
    have code: "greedyLoop nPrimes cover chosen cr =
        greedyLoop nPrimes cover (set_add j chosen) (markCovered cover (set_add j chosen) cr)"
      using True j by (subst greedyLoop.simps) simp
    show ?thesis unfolding code
      by (rule "1.IH"[OF True j "1.prems"(1) inv' sub])
  qed
qed

lemma select_covers:
  assumes "chartOK (length primeList) (buildCover primeList minBin)"
  shows "set (selectImplicants primeList minBin) \<subseteq> {0..<length primeList}"
    and "\<forall>mb \<in> set minBin. \<exists>j \<in> set (selectImplicants primeList minBin).
           covers (primeList ! j) mb"
proof -
  let ?cover = "buildCover primeList minBin"
  have ess: "set (essentials ?cover) \<subseteq> {0..<length primeList}"
    unfolding essentials_spec[OF assms] by (auto simp: spec_essential_def)
  note g = greedy_covers[OF assms rowsInv_init ess]
  show "set (selectImplicants primeList minBin) \<subseteq> {0..<length primeList}"
    using g by (simp add: selectImplicants_def Let_def)
  show "\<forall>mb \<in> set minBin. \<exists>j \<in> set (selectImplicants primeList minBin).
           covers (primeList ! j) mb"
  proof
    fix mb assume "mb \<in> set minBin"
    then obtain i where i: "i < length minBin" "minBin ! i = mb" by (auto simp: in_set_conv_nth)
    from g i(1) obtain j where j: "j \<in> set (?cover ! i)"
      "j \<in> set (selectImplicants primeList minBin)"
      by (auto simp: selectImplicants_def Let_def)
    from j(1) have "covers (primeList ! j) mb" using i by (simp add: buildCover_row)
    with j(2) show "\<exists>j \<in> set (selectImplicants primeList minBin). covers (primeList ! j) mb"
      by blast
  qed
qed

subsection \<open>Binary strings of the minterms\<close>

definition bitChar :: "nat \<Rightarrow> nat \<Rightarrow> char" where
  "bitChar m k = (if bit m k then CHR ''1'' else CHR ''0'')"

definition bitString :: "nat \<Rightarrow> nat \<Rightarrow> string" where
  "bitString n m = map (\<lambda>i. bitChar m (n - 1 - i)) [0..<n]"

lemma bitString_Suc: "bitString (Suc n) m = bitString n (m div 2) @ [bitChar m 0]"
proof (rule nth_equalityI)
  show "length (bitString (Suc n) m) = length (bitString n (m div 2) @ [bitChar m 0])"
    by (simp add: bitString_def)
  fix i assume "i < length (bitString (Suc n) m)"
  then have i: "i < Suc n" by (simp add: bitString_def)
  show "bitString (Suc n) m ! i = (bitString n (m div 2) @ [bitChar m 0]) ! i"
  proof (cases "i < n")
    case True
    then have "n - i = Suc (n - 1 - i)" by simp
    then have "bit m (n - i) = bit (m div 2) (n - 1 - i)" by (simp add: bit_Suc)
    then show ?thesis using True i
      by (simp add: bitString_def nth_append bitChar_def del: upt_Suc)
  next
    case False
    with i have "i = n" by simp
    then show ?thesis by (simp add: bitString_def nth_append del: upt_Suc)
  qed
qed

lemma small_no_bit: "m < 2 ^ k \<Longrightarrow> \<not> bit (m :: nat) k"
  by (simp add: bit_iff_odd)

lemma padStart_toString2:
  "m < 2 ^ n \<Longrightarrow> 1 \<le> n \<Longrightarrow> padStart (toString2 m) n (CHR ''0'') = bitString n m"
proof (induction m arbitrary: n rule: toString2.induct)
  case (1 m)
  show ?case
  proof (cases "m < 2")
    case True
    have ts: "toString2 m = [if m = 1 then CHR ''1'' else CHR ''0'']"
      using True by (subst toString2.simps) simp
    have "replicate (n - 1) (CHR ''0'') @ [if m = 1 then CHR ''1'' else CHR ''0''] = bitString n m"
    proof (rule nth_equalityI)
      show "length (replicate (n - 1) (CHR ''0'') @ [if m = 1 then CHR ''1'' else CHR ''0'']) =
            length (bitString n m)"
        using "1.prems"(2) by (simp add: bitString_def)
      fix i assume "i < length (replicate (n - 1) (CHR ''0'') @ [if m = 1 then CHR ''1'' else CHR ''0''])"
      then have i: "i < n" using "1.prems"(2) by simp
      show "(replicate (n - 1) (CHR ''0'') @ [if m = 1 then CHR ''1'' else CHR ''0'']) ! i =
            bitString n m ! i"
      proof (cases "i < n - 1")
        case True
        then have "1 \<le> n - 1 - i" by simp
        then have "(2::nat) ^ 1 \<le> 2 ^ (n - 1 - i)" by (intro power_increasing) simp_all
        then have "m < 2 ^ (n - 1 - i)" using \<open>m < 2\<close> by simp
        then have "\<not> bit m (n - 1 - i)" by (rule small_no_bit)
        then show ?thesis using True i by (simp add: nth_append bitString_def bitChar_def)
      next
        case False
        with i have e: "i = n - 1" by simp
        have "bit m 0 \<longleftrightarrow> m = 1" using \<open>m < 2\<close> by (auto simp: bit_0 less_2_cases_iff)
        then show ?thesis using e i by (simp add: nth_append bitString_def bitChar_def)
      qed
    qed
    then show ?thesis by (simp add: padStart_def ts)
  next
    case False
    have ts: "toString2 m = toString2 (m div 2) @ [if m mod 2 = 1 then CHR ''1'' else CHR ''0'']"
      using False by (subst toString2.simps) simp
    have n2: "2 \<le> n"
    proof (rule ccontr)
      assume "\<not> 2 \<le> n"
      with "1.prems"(2) have "n = 1" by simp
      with "1.prems"(1) False show False by simp
    qed
    then obtain n' where n': "n = Suc n'" "1 \<le> n'" by (cases n) auto
    have "m div 2 < 2 ^ n'" using "1.prems"(1) n'(1) by simp
    from "1.IH"[OF False this n'(2)]
    have ih: "padStart (toString2 (m div 2)) n' (CHR ''0'') = bitString n' (m div 2)" .
    have "padStart (toString2 m) n (CHR ''0'') =
        padStart (toString2 (m div 2)) n' (CHR ''0'') @ [if m mod 2 = 1 then CHR ''1'' else CHR ''0'']"
      by (simp add: padStart_def ts n'(1))
    also have "\<dots> = bitString n' (m div 2) @ [bitChar m 0]"
      unfolding ih by (simp add: bitChar_def bit_0 odd_iff_mod_2_eq_one)
    finally show ?thesis by (simp add: n'(1) bitString_Suc)
  qed
qed

lemma toBin_bitString: "m < 2 ^ n \<Longrightarrow> 1 \<le> n \<Longrightarrow> toBin m n = bitString n m"
  by (simp add: toBin_def padStart_toString2)

lemma bitString_facts:
  "length (bitString n m) = n" "bits01 (bitString n m)"
  "i < n \<Longrightarrow> bitString n m ! i = bitChar m (n - 1 - i)"
  by (auto simp: bitString_def bits01_def bitChar_def)

lemma bitString_inj:
  assumes "bitString n m = bitString n m'" "m < 2 ^ n" "m' < 2 ^ n"
  shows "m = m'"
proof (rule bit_eqI)
  fix k
  show "bit m k \<longleftrightarrow> bit m' k"
  proof (cases "k < n")
    case True
    then have i: "n - 1 - k < n" and e: "n - 1 - (n - 1 - k) = k" by auto
    from assms(1) have "bitString n m ! (n - 1 - k) = bitString n m' ! (n - 1 - k)" by simp
    then show ?thesis unfolding bitString_facts(3)[OF i] e
      by (simp add: bitChar_def split: if_splits)
  next
    case False
    then have "(2::nat) ^ n \<le> 2 ^ k" by (intro power_increasing) simp_all
    then have "m < 2 ^ k" "m' < 2 ^ k" using assms(2,3) by (auto elim: less_le_trans)
    then show ?thesis using small_no_bit by blast
  qed
qed

subsection \<open>The rendered text as a list of product terms\<close>

text \<open>A literal is a variable name and whether it carries an apostrophe.\<close>

type_synonym literal = "string \<times> bool"

fun lits :: "string \<Rightarrow> string list \<Rightarrow> nat \<Rightarrow> literal list" where
  "lits [] vars i = []"
| "lits (c # msk) vars i =
     (if c = CHR ''-'' then lits msk vars (i + 1)
      else (varAt vars i, c \<noteq> CHR ''1'') # lits msk vars (i + 1))"

definition lit_str :: "literal \<Rightarrow> string" where
  "lit_str l = fst l @ (if snd l then [apostrophe] else [])"

definition term_str :: "literal list \<Rightarrow> string" where
  "term_str ls = (if ls = [] then ''1'' else concat (map lit_str ls))"

definition goodLit :: "literal \<Rightarrow> bool" where
  "goodLit l = (\<exists>c. fst l = [c] \<and> upperLetter c)"

lemma sopLoop_lits: "sopLoop msk vars i s = s @ concat (map lit_str (lits msk vars i))"
  by (induction msk vars i s rule: sopLoop.induct) (auto simp: lit_str_def)

lemma lit_str_ne: "goodLit l \<Longrightarrow> lit_str l \<noteq> []"
  by (auto simp: goodLit_def lit_str_def)

lemma sopTerm_lits:
  assumes "\<forall>l \<in> set (lits msk vars 0). goodLit l"
  shows "sopTerm vars msk = term_str (lits msk vars 0)"
proof (cases "lits msk vars 0")
  case Nil
  then show ?thesis by (simp add: sopTerm_def sopLoop_lits term_str_def)
next
  case (Cons l ls)
  then have "lit_str l \<noteq> []" using assms lit_str_ne by simp
  then show ?thesis using Cons by (simp add: sopTerm_def sopLoop_lits term_str_def)
qed

lemma lits_good:
  "i + length msk \<le> length vars \<Longrightarrow> \<forall>v \<in> set vars. \<exists>c. v = [c] \<and> upperLetter c \<Longrightarrow>
   \<forall>l \<in> set (lits msk vars i). goodLit l"
proof (induction msk vars i rule: lits.induct)
  case (1 vars i)
  then show ?case by simp
next
  case (2 c msk vars i)
  have "i < length vars" using "2.prems"(1) by simp
  then have "vars ! i \<in> set vars" by simp
  then have "goodLit (varAt vars i, c \<noteq> CHR ''1'')"
    using "2.prems"(2) \<open>i < length vars\<close> by (auto simp: goodLit_def varAt_def)
  moreover have "\<forall>l \<in> set (lits msk vars (i + 1)). goodLit l"
    using 2 by (cases "c = CHR ''-''") auto
  ultimately show ?case by simp
qed

subsection \<open>Whitespace\<close>

lemma strip_ws_simps [simp]:
  "strip_ws [] = []"
  "strip_ws (c # s) = (if is_space c then strip_ws s else c # strip_ws s)"
  "strip_ws (a @ b) = strip_ws a @ strip_ws b"
  by (simp_all add: strip_ws_def)

lemma is_space_class [simp]:
  "is_space (CHR '' '')" "\<not> is_space (CHR ''+'')" "\<not> is_space (CHR ''1'')"
  "\<not> is_space (CHR ''0'')" "\<not> is_space apostrophe"
  by (simp_all add: is_space_def apostrophe_def)

lemma upperLetter_class:
  assumes "upperLetter c"
  shows "is_letter c" "toUpperCase c = c" "\<not> is_space c" "c \<noteq> apostrophe"
    "c \<noteq> CHR ''0''" "c \<noteq> CHR ''1''"
  using assms
  by (auto simp: upperLetter_def is_letter_def toUpperCase_def is_space_def apostrophe_def Let_def)

lemma strip_ws_lit: "goodLit l \<Longrightarrow> strip_ws (lit_str l) = lit_str l"
  by (auto simp: goodLit_def lit_str_def upperLetter_class(3))

lemma strip_ws_term: "\<forall>l \<in> set ls. goodLit l \<Longrightarrow> strip_ws (term_str ls) = term_str ls"
proof (induction ls)
  case Nil
  then show ?case by (simp add: term_str_def)
next
  case (Cons l ls)
  then have "strip_ws (concat (map lit_str ls)) = concat (map lit_str ls)"
    by (cases ls) (auto simp: term_str_def split: if_splits)
  then show ?case using Cons.prems by (simp add: term_str_def strip_ws_lit)
qed

lemma strip_ws_join:
  "\<forall>t \<in> set ts. \<forall>l \<in> set t. goodLit l \<Longrightarrow>
   strip_ws (join '' + '' (map term_str ts)) = join ''+'' (map term_str ts)"
proof (induction ts rule: induct_list012)
  case 1
  then show ?case by simp
next
  case (2 x)
  then show ?case by (simp add: strip_ws_term)
next
  case (3 x y zs)
  then show ?case by (simp add: strip_ws_term)
qed

subsection \<open>Tokens of the rendered text\<close>

definition orTok :: token where
  "orTok = binaryOp (CHR ''+'')"

definition lit_toks :: "literal \<Rightarrow> token list" where
  "lit_toks l = VAR (fst l) # (if snd l then [postfixNOT] else [])"

definition term_toks :: "literal list \<Rightarrow> token list" where
  "term_toks ls = (if ls = [] then [NUM 1] else concat (map lit_toks ls))"

definition push_toks :: "token list \<Rightarrow> error + token list \<Rightarrow> error + token list" where
  "push_toks ts r = (case r of Inl e \<Rightarrow> Inl e | Inr ts' \<Rightarrow> Inr (ts @ ts'))"

definition noApos :: "string \<Rightarrow> bool" where
  "noApos s = (case s of [] \<Rightarrow> True | c # _ \<Rightarrow> c \<noteq> apostrophe)"

lemma push_toks_simps [simp]:
  "push_toks [] r = r"
  "push_toks ts (Inr ts') = Inr (ts @ ts')"
  "push_tok t r = push_toks [t] r"
  "push_toks ts (push_toks ts' r) = push_toks (ts @ ts') r"
  by (cases r; simp add: push_toks_def push_tok_def)+

lemma noApos_while:
  "noApos s \<Longrightarrow> takeWhile (\<lambda>c. c = apostrophe) s = [] \<and> dropWhile (\<lambda>c. c = apostrophe) s = s"
  by (cases s) (auto simp: noApos_def)

lemma tok_lit:
  assumes "goodLit l" "noApos rest"
  shows "tokenize_from i (lit_str l @ rest) =
         push_toks (lit_toks l) (tokenize_from (i + length (lit_str l)) rest)"
proof -
  from assms(1) obtain c where c: "fst l = [c]" "upperLetter c" by (auto simp: goodLit_def)
  note u = upperLetter_class[OF c(2)]
  note w = noApos_while[OF assms(2)]
  show ?thesis
  proof (cases "snd l")
    case True
    then have s: "lit_str l @ rest = c # apostrophe # rest" by (simp add: lit_str_def c)
    show ?thesis unfolding s tokenize_from_letter[OF u(1)]
      using w True c by (simp add: lit_toks_def lit_str_def u(2))
  next
    case False
    then have s: "lit_str l @ rest = c # rest" by (simp add: lit_str_def c)
    show ?thesis unfolding s tokenize_from_letter[OF u(1)]
      using w False c by (simp add: lit_toks_def lit_str_def u(2))
  qed
qed

lemma noApos_lits:
  "\<forall>l \<in> set ls. goodLit l \<Longrightarrow> noApos rest \<Longrightarrow> noApos (concat (map lit_str ls) @ rest)"
proof (cases ls)
  case Nil
  assume "noApos rest" then show ?thesis using Nil by simp
next
  case (Cons l ls')
  assume "\<forall>l \<in> set ls. goodLit l"
  then obtain c where "fst l = [c]" "upperLetter c" using Cons by (auto simp: goodLit_def)
  then show ?thesis using Cons upperLetter_class(4)[of c] by (simp add: noApos_def lit_str_def)
qed

lemma tok_lits:
  "\<forall>l \<in> set ls. goodLit l \<Longrightarrow> noApos rest \<Longrightarrow>
   tokenize_from i (concat (map lit_str ls) @ rest) =
     push_toks (concat (map lit_toks ls))
       (tokenize_from (i + length (concat (map lit_str ls))) rest)"
proof (induction ls arbitrary: i)
  case Nil
  then show ?case by simp
next
  case (Cons l ls)
  have g: "goodLit l" "\<forall>l \<in> set ls. goodLit l" using Cons.prems(1) by simp_all
  have na: "noApos (concat (map lit_str ls) @ rest)" by (rule noApos_lits[OF g(2) Cons.prems(2)])
  show ?case
    using tok_lit[OF g(1) na, of i] Cons.IH[OF g(2) Cons.prems(2), of "i + length (lit_str l)"]
    by (simp add: add.assoc)
qed

lemma tok_term:
  assumes "\<forall>l \<in> set ls. goodLit l" "noApos rest"
  shows "tokenize_from i (term_str ls @ rest) =
         push_toks (term_toks ls) (tokenize_from (i + length (term_str ls)) rest)"
proof (cases "ls = []")
  case True
  then show ?thesis by (simp add: term_str_def term_toks_def)
next
  case False
  then show ?thesis using tok_lits[OF assms, of i] by (simp add: term_str_def term_toks_def)
qed

lemma join_concat: "join sep (x # xs) = x @ concat (map (\<lambda>y. sep @ y) xs)"
  by (induction xs arbitrary: x) simp_all

lemma tok_plus: "tokenize_from i (CHR ''+'' # rest) = push_tok orTok (tokenize_from (i + 1) rest)"
  by (simp add: orTok_def is_letter_def)

lemma tok_sum:
  "\<forall>l \<in> set t. goodLit l \<Longrightarrow> \<forall>u \<in> set ts. \<forall>l \<in> set u. goodLit l \<Longrightarrow>
   tokenize_from i (term_str t @ concat (map (\<lambda>u. ''+'' @ term_str u) ts)) =
     Inr (term_toks t @ concat (map (\<lambda>u. orTok # term_toks u) ts))"
proof (induction ts arbitrary: t i)
  case Nil
  have "noApos []" by (simp add: noApos_def)
  from tok_term[OF Nil(1) this, of i] show ?case by simp
next
  case (Cons u ts)
  let ?rest = "term_str u @ concat (map (\<lambda>u. ''+'' @ term_str u) ts)"
  have na: "noApos (CHR ''+'' # ?rest)" by (simp add: noApos_def apostrophe_def)
  have g: "\<forall>l \<in> set u. goodLit l" "\<forall>v \<in> set ts. \<forall>l \<in> set v. goodLit l"
    using Cons.prems(2) by simp_all
  have "tokenize_from i (term_str t @ CHR ''+'' # ?rest) =
        push_toks (term_toks t) (tokenize_from (i + length (term_str t)) (CHR ''+'' # ?rest))"
    by (rule tok_term[OF Cons.prems(1) na])
  also have "\<dots> = push_toks (term_toks t)
        (push_tok orTok (Inr (term_toks u @ concat (map (\<lambda>u. orTok # term_toks u) ts))))"
    unfolding tok_plus Cons.IH[OF g] ..
  finally show ?case by simp
qed

lemma tokenize_sum:
  assumes "\<forall>l \<in> set t. goodLit l" "\<forall>u \<in> set ts. \<forall>l \<in> set u. goodLit l"
  shows "tokenize (join '' + '' (map term_str (t # ts))) =
         Inr (term_toks t @ concat (map (\<lambda>u. orTok # term_toks u) ts))"
proof -
  have "strip_ws (join '' + '' (map term_str (t # ts))) = join ''+'' (map term_str (t # ts))"
    using assms by (intro strip_ws_join) auto
  also have "\<dots> = term_str t @ concat (map (\<lambda>u. ''+'' @ term_str u) ts)"
    by (simp add: join_concat comp_def)
  finally show ?thesis unfolding tokenize_def using tok_sum[OF assms, of 0] by simp
qed

subsection \<open>Implicit products\<close>

definition headTok :: "token list \<Rightarrow> token option" where
  "headTok ts = (case ts of [] \<Rightarrow> None | b # _ \<Rightarrow> Some b)"

definition term_toksI :: "literal list \<Rightarrow> token list" where
  "term_toksI ls =
     (case ls of [] \<Rightarrow> [NUM 1]
      | l # ls' \<Rightarrow> lit_toks l @ concat (map (\<lambda>l. implicitAND # lit_toks l) ls'))"

lemma insertImplicit_Cons:
  "insertImplicit (a # rest) =
     a # (if isOperand (Some a) \<and> beginsOperand (headTok rest) then [implicitAND] else [])
       @ insertImplicit rest"
  by (simp add: headTok_def)

lemma headTok_simps [simp]: "headTok [] = None" "headTok (a # ts) = Some a"
  by (simp_all add: headTok_def)

lemma insertImplicit_lit:
  "insertImplicit (lit_toks l @ rest) =
     lit_toks l @ (if beginsOperand (headTok rest) then [implicitAND] else []) @ insertImplicit rest"
  by (simp add: lit_toks_def postfixNOT_def insertImplicit_Cons del: insertImplicit.simps)

lemma beginsOperand_lit: "beginsOperand (headTok (lit_toks l @ rest))"
  by (simp add: lit_toks_def)

lemma insertImplicit_lits:
  "\<not> beginsOperand (headTok rest) \<Longrightarrow>
   insertImplicit (lit_toks l @ concat (map lit_toks ls) @ rest) =
     lit_toks l @ concat (map (\<lambda>l. implicitAND # lit_toks l) ls) @ insertImplicit rest"
proof (induction ls arbitrary: l)
  case Nil
  then show ?case by (simp add: insertImplicit_lit)
next
  case (Cons l' ls)
  have "insertImplicit (lit_toks l @ lit_toks l' @ concat (map lit_toks ls) @ rest) =
        lit_toks l @ [implicitAND] @ insertImplicit (lit_toks l' @ concat (map lit_toks ls) @ rest)"
    by (simp only: insertImplicit_lit[of l] beginsOperand_lit if_True)
  then show ?case using Cons.IH[OF Cons.prems, of l'] by simp
qed

lemma insertImplicit_term:
  assumes "\<not> beginsOperand (headTok rest)"
  shows "insertImplicit (term_toks t @ rest) = term_toksI t @ insertImplicit rest"
proof (cases t)
  case Nil
  then show ?thesis using assms
    by (simp add: term_toks_def term_toksI_def insertImplicit_Cons del: insertImplicit.simps)
next
  case (Cons l ls)
  then show ?thesis using insertImplicit_lits[OF assms, of l ls]
    by (simp add: term_toks_def term_toksI_def)
qed

lemma orTok_simp:
  "orTok = OP \<lparr>value = ''OR'', unary = False, postfix = False, precedence = 1,
               associativity = ''left'', implicit = False\<rparr>"
  by (simp add: orTok_def binaryOp_def)

lemma insertImplicit_sum:
  "insertImplicit (term_toks t @ concat (map (\<lambda>u. orTok # term_toks u) ts)) =
     term_toksI t @ concat (map (\<lambda>u. orTok # term_toksI u) ts)"
proof (induction ts arbitrary: t)
  case Nil
  have "\<not> beginsOperand (headTok [])" by simp
  from insertImplicit_term[OF this, of t] show ?case by simp
next
  case (Cons u ts)
  let ?rest = "term_toks u @ concat (map (\<lambda>u. orTok # term_toks u) ts)"
  have nb: "\<not> beginsOperand (headTok (orTok # ?rest))" by (simp add: orTok_simp)
  have "insertImplicit (orTok # ?rest) = orTok # insertImplicit ?rest"
    by (simp add: orTok_simp insertImplicit_Cons del: insertImplicit.simps)
  with insertImplicit_term[OF nb, of t] Cons.IH[of u] show ?case by simp
qed

subsection \<open>Shunting\<close>

definition baseStack :: "token list \<Rightarrow> bool" where
  "baseStack b = (b = [] \<or> b = [orTok])"

definition out_part :: "literal list \<Rightarrow> token list" where
  "out_part ls =
     (case ls of [] \<Rightarrow> [NUM 1]
      | l # ls' \<Rightarrow> lit_toks l @
          (case ls' of [] \<Rightarrow> []
           | l2 # ls'' \<Rightarrow> lit_toks l2 @ concat (map (\<lambda>l. implicitAND # lit_toks l) ls'')))"

definition pend :: "literal list \<Rightarrow> token list" where
  "pend ls = (if 2 \<le> length ls then [implicitAND] else [])"

lemma shunt_lit: "shunt (lit_toks l @ ts) out st = shunt ts (out @ lit_toks l) st"
  by (simp add: lit_toks_def postfixNOT_def)

lemma shunt_and_base:
  "baseStack b \<Longrightarrow> shunt (implicitAND # ts) out b = shunt ts out (implicitAND # b)"
  by (auto simp: baseStack_def implicitAND_def orTok_simp)

lemma shunt_and_and:
  "baseStack b \<Longrightarrow>
   shunt (implicitAND # ts) out (implicitAND # b) = shunt ts (out @ [implicitAND]) (implicitAND # b)"
  by (auto simp: baseStack_def implicitAND_def orTok_simp)

lemma shunt_more_lits:
  "baseStack b \<Longrightarrow>
   shunt (concat (map (\<lambda>l. implicitAND # lit_toks l) ls) @ ts) out (implicitAND # b) =
   shunt ts (out @ concat (map (\<lambda>l. implicitAND # lit_toks l) ls)) (implicitAND # b)"
proof (induction ls arbitrary: out)
  case Nil
  then show ?case by simp
next
  case (Cons l ls)
  show ?case
    using Cons.IH[OF Cons.prems, of "out @ implicitAND # lit_toks l"]
    by (simp add: shunt_and_and[OF Cons.prems] shunt_lit del: shunt.simps)
qed

lemma shunt_term:
  assumes "baseStack b"
  shows "shunt (term_toksI t @ ts) out b = shunt ts (out @ out_part t) (pend t @ b)"
proof (cases t)
  case Nil
  then show ?thesis by (simp add: term_toksI_def out_part_def pend_def)
next
  case (Cons l ls)
  show ?thesis
  proof (cases ls)
    case Nil
    then show ?thesis using Cons by (simp add: term_toksI_def out_part_def pend_def shunt_lit)
  next
    case (Cons l2 ls')
    have "shunt (lit_toks l @ implicitAND # lit_toks l2 @
                 concat (map (\<lambda>l. implicitAND # lit_toks l) ls') @ ts) out b =
          shunt (concat (map (\<lambda>l. implicitAND # lit_toks l) ls') @ ts)
                (out @ lit_toks l @ lit_toks l2) (implicitAND # b)"
      by (simp add: shunt_lit shunt_and_base[OF assms] del: shunt.simps)
    also have "\<dots> = shunt ts (out @ lit_toks l @ lit_toks l2 @
                 concat (map (\<lambda>l. implicitAND # lit_toks l) ls')) (implicitAND # b)"
      using shunt_more_lits[OF assms, of ls' ts "out @ lit_toks l @ lit_toks l2"] by simp
    finally show ?thesis using Cons \<open>t = l # ls\<close>
      by (simp add: term_toksI_def out_part_def pend_def)
  qed
qed

lemma shunt_or:
  assumes "baseStack b"
  shows "shunt (orTok # ts) out (pend t @ b) = shunt ts (out @ pend t @ b) [orTok]"
  using assms by (auto simp: baseStack_def pend_def implicitAND_def orTok_simp)

lemma drain_term:
  assumes "baseStack b"
  shows "drainStack out (pend t @ b) = Inr (out @ pend t @ b)"
  using assms by (auto simp: baseStack_def pend_def implicitAND_def orTok_simp)

definition term_rpn :: "literal list \<Rightarrow> token list" where
  "term_rpn t = out_part t @ pend t"

lemma shunt_sum:
  "baseStack b \<Longrightarrow>
   shunt (term_toksI t @ concat (map (\<lambda>u. orTok # term_toksI u) ts)) out b =
     Inr (out @ term_rpn t @ b @ concat (map (\<lambda>u. term_rpn u @ [orTok]) ts))"
proof (induction ts arbitrary: t out b)
  case Nil
  show ?case
    using shunt_term[OF Nil, of t "[]" out] drain_term[OF Nil, of "out @ out_part t" t]
    by (simp add: term_rpn_def)
next
  case (Cons u ts)
  let ?rest = "term_toksI u @ concat (map (\<lambda>u. orTok # term_toksI u) ts)"
  have b1: "baseStack [orTok]" by (simp add: baseStack_def)
  have "shunt (term_toksI t @ orTok # ?rest) out b =
        shunt (orTok # ?rest) (out @ out_part t) (pend t @ b)"
    by (rule shunt_term[OF Cons.prems])
  also have "\<dots> = shunt ?rest (out @ out_part t @ pend t @ b) [orTok]"
    using shunt_or[OF Cons.prems, of ?rest "out @ out_part t" t] by simp
  also have "\<dots> = Inr ((out @ out_part t @ pend t @ b) @ term_rpn u @ [orTok] @
                        concat (map (\<lambda>u. term_rpn u @ [orTok]) ts))"
    by (rule Cons.IH[OF b1])
  finally show ?case by (simp add: term_rpn_def)
qed

definition sum_rpn :: "literal list \<Rightarrow> literal list list \<Rightarrow> token list" where
  "sum_rpn t ts = term_rpn t @ concat (map (\<lambda>u. term_rpn u @ [orTok]) ts)"

lemma toRPN_sum:
  "toRPN (term_toks t @ concat (map (\<lambda>u. orTok # term_toks u) ts)) = Inr (sum_rpn t ts)"
proof -
  have "baseStack []" by (simp add: baseStack_def)
  from shunt_sum[OF this, of t ts "[]"] show ?thesis
    by (simp add: toRPN_def insertImplicit_sum sum_rpn_def)
qed

subsection \<open>Value of the postfix sequence\<close>

definition litVal :: "env \<Rightarrow> literal \<Rightarrow> bool" where
  "litVal env l = ((the (env (fst l)) \<noteq> 0) \<noteq> snd l)"

definition termVal :: "env \<Rightarrow> literal list \<Rightarrow> bool" where
  "termVal env t = (\<forall>l \<in> set t. litVal env l)"

lemma eval_lit:
  "fst l \<in> dom env \<Longrightarrow> evalLoop env (lit_toks l) st = Inr (litVal env l # st)"
  by (auto simp: lit_toks_def litVal_def postfixNOT_def)

lemma eval_more_lits:
  "\<forall>l \<in> set ls. fst l \<in> dom env \<Longrightarrow>
   evalLoop env (concat (map (\<lambda>l. lit_toks l @ [implicitAND]) ls)) (a # st) =
     Inr ((a \<and> termVal env ls) # st)"
proof (induction ls arbitrary: a)
  case Nil
  then show ?case by (simp add: termVal_def)
next
  case (Cons l ls)
  have l: "fst l \<in> dom env" and ls: "\<forall>l \<in> set ls. fst l \<in> dom env" using Cons.prems by simp_all
  let ?f = "\<lambda>l. lit_toks l @ [implicitAND]"
  have one: "evalLoop env (lit_toks l @ [implicitAND]) (a # st) = Inr ((a \<and> litVal env l) # st)"
    by (simp add: evalLoop_append eval_lit[OF l] implicitAND_def)
  have "evalLoop env (concat (map ?f (l # ls))) (a # st) =
        evalLoop env ((lit_toks l @ [implicitAND]) @ concat (map ?f ls)) (a # st)"
    by simp
  also have "\<dots> = evalLoop env (concat (map ?f ls)) ((a \<and> litVal env l) # st)"
    unfolding evalLoop_append[of env "lit_toks l @ [implicitAND]"] one by simp
  also have "\<dots> = Inr (((a \<and> litVal env l) \<and> termVal env ls) # st)"
    by (rule Cons.IH[OF ls])
  finally show ?case by (simp add: termVal_def conj_assoc)
qed

lemma concat_shift:
  "concat (map (\<lambda>l. a # f l) ls) @ [a] = a # concat (map (\<lambda>l. f l @ [a]) ls)"
  by (induction ls) simp_all

lemma term_rpn_Cons:
  "term_rpn (l # ls) = lit_toks l @ concat (map (\<lambda>l. lit_toks l @ [implicitAND]) ls)"
proof (cases ls)
  case Nil
  then show ?thesis by (simp add: term_rpn_def out_part_def pend_def)
next
  case (Cons l2 ls')
  then show ?thesis
    using concat_shift[of implicitAND lit_toks ls']
    by (simp add: term_rpn_def out_part_def pend_def)
qed

lemma eval_term:
  assumes "\<forall>l \<in> set t. fst l \<in> dom env"
  shows "evalLoop env (term_rpn t) st = Inr (termVal env t # st)"
proof (cases t)
  case Nil
  then show ?thesis by (simp add: term_rpn_def out_part_def pend_def termVal_def)
next
  case (Cons l ls)
  have l: "fst l \<in> dom env" and ls: "\<forall>l \<in> set ls. fst l \<in> dom env"
    using assms Cons by simp_all
  show ?thesis unfolding Cons term_rpn_Cons
    using eval_more_lits[OF ls, of "litVal env l" st]
    by (simp add: evalLoop_append eval_lit[OF l] termVal_def)
qed

lemma eval_more_terms:
  "\<forall>u \<in> set ts. \<forall>l \<in> set u. fst l \<in> dom env \<Longrightarrow>
   evalLoop env (concat (map (\<lambda>u. term_rpn u @ [orTok]) ts)) (a # st) =
     Inr ((a \<or> (\<exists>u \<in> set ts. termVal env u)) # st)"
proof (induction ts arbitrary: a)
  case Nil
  then show ?case by simp
next
  case (Cons u ts)
  have u: "\<forall>l \<in> set u. fst l \<in> dom env" and ts: "\<forall>u \<in> set ts. \<forall>l \<in> set u. fst l \<in> dom env"
    using Cons.prems by simp_all
  let ?f = "\<lambda>u. term_rpn u @ [orTok]"
  have one: "evalLoop env (term_rpn u @ [orTok]) (a # st) = Inr ((a \<or> termVal env u) # st)"
    by (simp add: evalLoop_append eval_term[OF u] orTok_simp)
  have "evalLoop env (concat (map ?f (u # ts))) (a # st) =
        evalLoop env ((term_rpn u @ [orTok]) @ concat (map ?f ts)) (a # st)"
    by simp
  also have "\<dots> = evalLoop env (concat (map ?f ts)) ((a \<or> termVal env u) # st)"
    unfolding evalLoop_append[of env "term_rpn u @ [orTok]"] one by simp
  also have "\<dots> = Inr (((a \<or> termVal env u) \<or> (\<exists>u \<in> set ts. termVal env u)) # st)"
    by (rule Cons.IH[OF ts])
  finally show ?case by (simp add: disj_assoc)
qed

lemma eval_sum:
  assumes "\<forall>u \<in> set (t # ts). \<forall>l \<in> set u. fst l \<in> dom env"
  shows "evalRPN (sum_rpn t ts) env = Inr (if \<exists>u \<in> set (t # ts). termVal env u then 1 else 0)"
proof -
  have t: "\<forall>l \<in> set t. fst l \<in> dom env" and ts: "\<forall>u \<in> set ts. \<forall>l \<in> set u. fst l \<in> dom env"
    using assms by simp_all
  have "evalLoop env (sum_rpn t ts) [] = Inr [termVal env t \<or> (\<exists>u \<in> set ts. termVal env u)]"
    unfolding sum_rpn_def
    using eval_more_terms[OF ts, of "termVal env t" "[]"]
    by (simp add: evalLoop_append eval_term[OF t])
  then show ?thesis by (simp add: evalRPN_def)
qed

subsection \<open>A product term is true where its implicant covers\<close>

lemma lits_vars:
  "i + length msk \<le> length vars \<Longrightarrow> \<forall>l \<in> set (lits msk vars i). fst l \<in> set vars"
proof (induction msk vars i rule: lits.induct)
  case (1 vars i)
  then show ?case by simp
next
  case (2 c msk vars i)
  have "i < length vars" using "2.prems"(1) by simp
  then have "varAt vars i \<in> set vars" by (simp add: varAt_def)
  moreover have "\<forall>l \<in> set (lits msk vars (i + 1)). fst l \<in> set vars"
    using 2 by (cases "c = CHR ''-''") auto
  ultimately show ?case by simp
qed

lemma termVal_covers:
  "i + length p = length vars \<Longrightarrow> length x = length vars \<Longrightarrow> alphabetOK p \<Longrightarrow> bits01 x \<Longrightarrow>
   \<forall>j < length vars. env (vars ! j) = Some (if x ! j = CHR ''1'' then 1 else 0) \<Longrightarrow>
   termVal env (lits p vars i) \<longleftrightarrow> covers p (drop i x)"
proof (induction p arbitrary: i)
  case Nil
  then show ?case by (simp add: termVal_def)
next
  case (Cons c p)
  have i: "i < length vars" using Cons.prems(1) by simp
  then have ix: "i < length x" using Cons.prems(2) by simp
  have dr: "drop i x = x ! i # drop (Suc i) x" using ix by (simp add: Cons_nth_drop_Suc)
  have ih: "termVal env (lits p vars (Suc i)) \<longleftrightarrow> covers p (drop (Suc i) x)"
    using Cons.IH[of "Suc i"] Cons.prems by (simp add: alphabetOK_def)
  have c: "c = CHR ''-'' \<or> c = CHR ''0'' \<or> c = CHR ''1''"
    using Cons.prems(3) by (auto simp: alphabetOK_def)
  have xi: "x ! i = CHR ''0'' \<or> x ! i = CHR ''1''"
    using Cons.prems(4) ix by (auto simp: bits01_def dest: nth_mem)
  have ev: "env (varAt vars i) = Some (if x ! i = CHR ''1'' then 1 else 0)"
    using Cons.prems(5) i by (simp add: varAt_def)
  have tv: "termVal env (l # ls) \<longleftrightarrow> litVal env l \<and> termVal env ls" for l ls
    by (simp add: termVal_def)
  show ?case
    using c xi ih unfolding dr
    by (auto simp: tv litVal_def ev charAt0_def)
qed

subsection \<open>The minimizer, rendered and read back\<close>

lemma buildEnv_bitString:
  assumes "length vars \<le> 30" "distinct vars" "m < 2 ^ length vars"
  shows "\<forall>j < length vars. buildEnv vars m (vars ! j) =
           Some (if bitString (length vars) m ! j = CHR ''1'' then 1 else 0)"
proof (intro allI impI)
  fix j assume j: "j < length vars"
  show "buildEnv vars m (vars ! j) =
           Some (if bitString (length vars) m ! j = CHR ''1'' then 1 else 0)"
    unfolding buildEnv_bit[OF assms(1,2) j assms(3)] bitString_facts(3)[OF j]
    by (simp add: bitChar_def)
qed

lemma sop_terms:
  assumes vs: "\<forall>v \<in> set vars. \<exists>c. v = [c] \<and> upperLetter c"
    and ps: "\<forall>p \<in> set (p # ps). length p = length vars"
  shows "implicantsToSOP (p # ps) vars =
         join '' + '' (map term_str (lits p vars 0 # map (\<lambda>p. lits p vars 0) ps))"
proof -
  have "sopTerm vars q = term_str (lits q vars 0)" if "q \<in> set (p # ps)" for q
  proof -
    have "0 + length q \<le> length vars" using ps that by auto
    from lits_good[OF this vs] show ?thesis by (rule sopTerm_lits)
  qed
  then have "map (sopTerm vars) (p # ps) = map (\<lambda>q. term_str (lits q vars 0)) (p # ps)"
    by (intro map_cong) auto
  then have "join '' + '' (map (sopTerm vars) (p # ps)) =
      join '' + '' (map (\<lambda>q. term_str (lits q vars 0)) (p # ps))"
    by (rule arg_cong)
  then show ?thesis by (simp add: implicantsToSOP_def comp_def)
qed

lemma sop_value:
  assumes n: "length vars \<le> 30" and d: "distinct vars"
    and vs: "\<forall>v \<in> set vars. \<exists>c. v = [c] \<and> upperLetter c"
    and ps: "\<forall>p \<in> set (p # ps). length p = length vars \<and> alphabetOK p"
  shows "\<exists>toks rpn.
      tokenize (implicantsToSOP (p # ps) vars) = Inr toks \<and> toRPN toks = Inr rpn \<and>
      (\<forall>m < 2 ^ length vars.
         evalRPN rpn (buildEnv vars m) =
           Inr (if \<exists>q \<in> set (p # ps). covers q (bitString (length vars) m) then 1 else 0))"
proof -
  let ?L = "\<lambda>q. lits q vars 0"
  let ?t = "?L p" and ?ts = "map ?L ps"
  have len: "0 + length q \<le> length vars" if "q \<in> set (p # ps)" for q using ps that by auto
  have good: "\<forall>q \<in> set (p # ps). \<forall>l \<in> set (?L q). goodLit l"
    using lits_good[OF len vs] by blast
  have inv: "\<forall>q \<in> set (p # ps). \<forall>l \<in> set (?L q). fst l \<in> set vars"
    using lits_vars[OF len] by blast
  have g1: "\<forall>l \<in> set ?t. goodLit l" using good by simp
  have g2: "\<forall>u \<in> set ?ts. \<forall>l \<in> set u. goodLit l" using good by simp
  have tk: "tokenize (implicantsToSOP (p # ps) vars) =
        Inr (term_toks ?t @ concat (map (\<lambda>u. orTok # term_toks u) ?ts))"
    using sop_terms[OF vs, of p ps] ps tokenize_sum[OF g1 g2] by simp
  have rp: "toRPN (term_toks ?t @ concat (map (\<lambda>u. orTok # term_toks u) ?ts)) =
        Inr (sum_rpn ?t ?ts)"
    by (rule toRPN_sum)
  have ev: "evalRPN (sum_rpn ?t ?ts) (buildEnv vars m) =
        Inr (if \<exists>q \<in> set (p # ps). covers q (bitString (length vars) m) then 1 else 0)"
    if m: "m < 2 ^ length vars" for m
  proof -
    let ?env = "buildEnv vars m" and ?x = "bitString (length vars) m"
    have dm: "\<forall>u \<in> set (?t # ?ts). \<forall>l \<in> set u. fst l \<in> dom ?env"
      using inv by (simp add: buildEnv_dom)
    have tv: "termVal ?env (?L q) \<longleftrightarrow> covers q ?x" if q: "q \<in> set (p # ps)" for q
    proof -
      have "termVal ?env (lits q vars 0) \<longleftrightarrow> covers q (drop 0 ?x)"
      proof (rule termVal_covers)
        show "0 + length q = length vars" using ps q by auto
        show "length ?x = length vars" by (rule bitString_facts(1))
        show "alphabetOK q" using ps q by auto
        show "bits01 ?x" by (rule bitString_facts(2))
        show "\<forall>j < length vars. ?env (vars ! j) = Some (if ?x ! j = CHR ''1'' then 1 else 0)"
          by (rule buildEnv_bitString[OF n d m])
      qed
      then show ?thesis by simp
    qed
    have "(\<exists>u \<in> set (?t # ?ts). termVal ?env u) \<longleftrightarrow> (\<exists>q \<in> set (p # ps). covers q ?x)"
      using tv by auto
    then show ?thesis unfolding eval_sum[OF dm] by simp
  qed
  show ?thesis using tk rp ev by blast
qed

lemma minimizer_sound_complete:
  assumes n1: "1 \<le> n" and ms: "\<forall>m \<in> set minterms. m < 2 ^ n" and m: "m < 2 ^ n"
  defines "bins \<equiv> map (\<lambda>m. toBin m n) minterms"
  defines "primeList \<equiv> primeImplicants bins"
  defines "impls \<equiv> map (\<lambda>j. primeList ! j) (selectImplicants primeList bins)"
  shows "(\<exists>q \<in> set impls. covers q (bitString n m)) \<longleftrightarrow> m \<in> set minterms"
    and "\<forall>q \<in> set impls. length q = n \<and> alphabetOK q"
    and "minterms \<noteq> [] \<Longrightarrow> impls \<noteq> []"
proof -
  have bins: "bins = map (bitString n) minterms"
    unfolding bins_def using ms n1 by (intro map_cong) (auto simp: toBin_bitString)
  have wf: "\<forall>b \<in> set bins. length b = n \<and> bits01 b"
    unfolding bins by (auto simp: bitString_facts)
  then have al: "\<forall>b \<in> set bins. alphabetOK b" by (auto simp: bits01_def alphabetOK_def)
  have cov: "\<forall>x \<in> set bins. coveredBy (set primeList) x"
    unfolding primeList_def using primeImplicants_cover[OF al] by blast
  have ok: "chartOK (length primeList) (buildCover primeList bins)"
    unfolding chartOK_def using buildCover_rows_ok[OF cov] by blast
  note sel = select_covers[OF ok]
  have mem: "q \<in> set primeList" if "q \<in> set impls" for q
    using that sel(1) unfolding impls_def by auto
  have snd: "soundFor n (set bins) q" if "q \<in> set impls" for q
    using primeImplicants_sound[OF wf] mem[OF that] unfolding primeList_def by blast
  show "\<forall>q \<in> set impls. length q = n \<and> alphabetOK q"
    using snd by (auto simp: soundFor_def)
  show "(\<exists>q \<in> set impls. covers q (bitString n m)) \<longleftrightarrow> m \<in> set minterms"
  proof
    assume "\<exists>q \<in> set impls. covers q (bitString n m)"
    then obtain q where q: "q \<in> set impls" "covers q (bitString n m)" by blast
    from snd[OF q(1)] q(2) have "bitString n m \<in> set bins"
      by (auto simp: soundFor_def bitString_facts)
    then obtain m' where m': "m' \<in> set minterms" "bitString n m = bitString n m'"
      unfolding bins by auto
    from bitString_inj[OF m'(2) m] ms m'(1) show "m \<in> set minterms" by auto
  next
    assume "m \<in> set minterms"
    then have "bitString n m \<in> set bins" unfolding bins by simp
    with sel(2) obtain j where "j \<in> set (selectImplicants primeList bins)"
      "covers (primeList ! j) (bitString n m)" by blast
    then show "\<exists>q \<in> set impls. covers q (bitString n m)" unfolding impls_def by auto
  qed
  show "impls \<noteq> []" if "minterms \<noteq> []"
  proof -
    from that obtain b where "b \<in> set bins" unfolding bins by (cases minterms) auto
    with sel(2) obtain j where "j \<in> set (selectImplicants primeList bins)" by blast
    then show ?thesis unfolding impls_def by auto
  qed
qed

text \<open>
  Claim C1, as the code has it. Let there be between 1 and 30 variables, pairwise
  distinct, each name a single upper-case letter, and let every minterm be below
  \<open>2 ^ n\<close>, with no don't-cares. Then the SOP text of the minimizer tokenizes and
  parses, the postfix sequence evaluates to 1 under the assignment of every minterm
  and to 0 under every other of the \<open>2 ^ n\<close> assignments, and \<open>buildTruthTable\<close>
  returns exactly these rows.
\<close>

theorem sop_round_trip:
  assumes "1 \<le> length vars" "length vars \<le> 30" "distinct vars"
    and "\<forall>v \<in> set vars. \<exists>c. v = [c] \<and> upperLetter c"
    and "\<forall>m \<in> set minterms. m < 2 ^ length vars"
  shows "\<exists>toks rpn.
      tokenize (result (qmSimplify minterms [] vars ''SOP'')) = Inr toks \<and>
      toRPN toks = Inr rpn \<and>
      (\<forall>m < 2 ^ length vars.
         evalRPN rpn (buildEnv vars m) = Inr (if m \<in> set minterms then 1 else 0)) \<and>
      buildTruthTable vars (Some rpn) =
        Inr (map (\<lambda>m. \<lparr>rowM = m, rowEnv = buildEnv vars m,
                        rowY = (if m \<in> set minterms then 1 else 0)\<rparr>)
               [0..<2 ^ length vars])"
proof -
  let ?n = "length vars"
  have main: "\<exists>toks rpn.
      tokenize (result (qmSimplify minterms [] vars ''SOP'')) = Inr toks \<and>
      toRPN toks = Inr rpn \<and>
      (\<forall>m < 2 ^ ?n. evalRPN rpn (buildEnv vars m) = Inr (if m \<in> set minterms then 1 else 0))"
  proof (cases "minterms = []")
    case True
    have "tokenize ''0'' = Inr [NUM 0]" by (simp add: tokenize_def)
    moreover have "toRPN [NUM 0] = Inr [NUM 0]" by (simp add: toRPN_def)
    moreover have "evalRPN [NUM 0] e = Inr 0" for e by (simp add: evalRPN_def)
    ultimately show ?thesis using True by (simp add: qmSimplify_def)
  next
    case False
    let ?bins = "map (\<lambda>m. toBin m ?n) minterms"
    let ?pl = "primeImplicants ?bins"
    let ?impls = "map (\<lambda>j. ?pl ! j) (selectImplicants ?pl ?bins)"
    have res: "result (qmSimplify minterms [] vars ''SOP'') = implicantsToSOP ?impls vars"
      using False by (simp add: qmSimplify_def Let_def)
    note msc = minimizer_sound_complete[OF assms(1,5)]
    from msc(3)[of 0] False obtain p ps where pp: "?impls = p # ps"
      by (cases ?impls) auto
    have wf: "\<forall>q \<in> set (p # ps). length q = ?n \<and> alphabetOK q"
      using msc(2)[of 0] unfolding pp by simp
    from sop_value[OF assms(2,3,4) wf] obtain toks rpn where
      tr: "tokenize (implicantsToSOP (p # ps) vars) = Inr toks" "toRPN toks = Inr rpn"
      and ev: "\<forall>m < 2 ^ ?n. evalRPN rpn (buildEnv vars m) =
           Inr (if \<exists>q \<in> set (p # ps). covers q (bitString ?n m) then 1 else 0)"
      by blast
    have "evalRPN rpn (buildEnv vars m) = Inr (if m \<in> set minterms then 1 else 0)"
      if m: "m < 2 ^ ?n" for m
      using ev m msc(1)[OF m] unfolding pp by simp
    then show ?thesis using tr unfolding res pp by blast
  qed
  then obtain toks rpn where
    tr: "tokenize (result (qmSimplify minterms [] vars ''SOP'')) = Inr toks" "toRPN toks = Inr rpn"
    and ev: "\<forall>m < 2 ^ ?n. evalRPN rpn (buildEnv vars m) = Inr (if m \<in> set minterms then 1 else 0)"
    by blast
  have "tableRows vars (Some rpn) [0..<2 ^ ?n] =
        Inr (map (\<lambda>mm. \<lparr>rowM = mm, rowEnv = buildEnv vars mm,
                         rowY = projr (evalRPN rpn (buildEnv vars mm))\<rparr>) [0..<2 ^ ?n])"
    using ev by (intro tableRows_Some_ok) auto
  also have "map (\<lambda>mm. \<lparr>rowM = mm, rowEnv = buildEnv vars mm,
                         rowY = projr (evalRPN rpn (buildEnv vars mm))\<rparr>) [0..<2 ^ ?n] =
        map (\<lambda>m. \<lparr>rowM = m, rowEnv = buildEnv vars m,
                   rowY = (if m \<in> set minterms then 1 else 0)\<rparr>) [0..<2 ^ ?n]"
    using ev by (intro map_cong) auto
  finally have "buildTruthTable vars (Some rpn) =
        Inr (map (\<lambda>m. \<lparr>rowM = m, rowEnv = buildEnv vars m,
                        rowY = (if m \<in> set minterms then 1 else 0)\<rparr>) [0..<2 ^ ?n])"
    by (simp add: buildTruthTable_def total_rows[OF assms(2)])
  with tr ev show ?thesis by blast
qed

theorem sop_round_trip_witness:
  "result (qmSimplify [0, 1, 2, 5, 6, 7] [] [''A'', ''B'', ''C''] ''SOP'') = ''A'B' + BC' + AC'' \<and>
   tokenize ''A'B' + BC' + AC'' =
     Inr [VAR ''A'', postfixNOT, VAR ''B'', postfixNOT, binaryOp (CHR ''+''),
          VAR ''B'', VAR ''C'', postfixNOT, binaryOp (CHR ''+''), VAR ''A'', VAR ''C''] \<and>
   toRPN [VAR ''A'', postfixNOT, VAR ''B'', postfixNOT, binaryOp (CHR ''+''),
          VAR ''B'', VAR ''C'', postfixNOT, binaryOp (CHR ''+''), VAR ''A'', VAR ''C''] =
     Inr [VAR ''A'', postfixNOT, VAR ''B'', postfixNOT, implicitAND,
          VAR ''B'', VAR ''C'', postfixNOT, implicitAND, binaryOp (CHR ''+''),
          VAR ''A'', VAR ''C'', implicitAND, binaryOp (CHR ''+'')] \<and>
   evalRPN [VAR ''A'', postfixNOT, VAR ''B'', postfixNOT, implicitAND,
            VAR ''B'', VAR ''C'', postfixNOT, implicitAND, binaryOp (CHR ''+''),
            VAR ''A'', VAR ''C'', implicitAND, binaryOp (CHR ''+'')]
     (buildEnv [''A'', ''B'', ''C''] 5) = Inr 1 \<and>
   evalRPN [VAR ''A'', postfixNOT, VAR ''B'', postfixNOT, implicitAND,
            VAR ''B'', VAR ''C'', postfixNOT, implicitAND, binaryOp (CHR ''+''),
            VAR ''A'', VAR ''C'', implicitAND, binaryOp (CHR ''+'')]
     (buildEnv [''A'', ''B'', ''C''] 3) = Inr 0"
proof -
  let ?V = "[''A'', ''B'', ''C'']" and ?M = "[0, 1, 2, 5, 6, 7] :: nat list"
  let ?T = "[VAR ''A'', postfixNOT, VAR ''B'', postfixNOT, binaryOp (CHR ''+''),
          VAR ''B'', VAR ''C'', postfixNOT, binaryOp (CHR ''+''), VAR ''A'', VAR ''C'']"
  let ?R = "[VAR ''A'', postfixNOT, VAR ''B'', postfixNOT, implicitAND,
          VAR ''B'', VAR ''C'', postfixNOT, implicitAND, binaryOp (CHR ''+''),
          VAR ''A'', VAR ''C'', implicitAND, binaryOp (CHR ''+'')]"
  have h: "1 \<le> length ?V" "length ?V \<le> 30" "distinct ?V"
    "\<forall>v \<in> set ?V. \<exists>c. v = [c] \<and> upperLetter c" "\<forall>m \<in> set ?M. m < 2 ^ length ?V"
    by (simp_all add: upperLetter_def)
  have r: "result (qmSimplify ?M [] ?V ''SOP'') = ''A'B' + BC' + AC''" by code_simp
  have t: "tokenize ''A'B' + BC' + AC'' = Inr ?T" by code_simp
  have p: "toRPN ?T = Inr ?R" by code_simp
  from sop_round_trip[OF h] obtain toks rpn where
    a: "tokenize (result (qmSimplify ?M [] ?V ''SOP'')) = Inr toks" and b: "toRPN toks = Inr rpn"
    and c: "\<forall>m < 2 ^ length ?V. evalRPN rpn (buildEnv ?V m) = Inr (if m \<in> set ?M then 1 else 0)"
    by blast
  from a have tk: "toks = ?T" unfolding r t by simp
  from b have "rpn = ?R" unfolding tk p by simp
  with c have e: "\<forall>m < 2 ^ length ?V. evalRPN ?R (buildEnv ?V m) = Inr (if m \<in> set ?M then 1 else 0)"
    by simp
  have "(5::nat) < 2 ^ length ?V" "(3::nat) < 2 ^ length ?V" by simp_all
  with e have "evalRPN ?R (buildEnv ?V 5) = Inr (if 5 \<in> set ?M then 1 else 0)"
    "evalRPN ?R (buildEnv ?V 3) = Inr (if 3 \<in> set ?M then 1 else 0)"
    by blast+
  then have "evalRPN ?R (buildEnv ?V 5) = Inr 1" "evalRPN ?R (buildEnv ?V 3) = Inr 0"
    by simp_all
  with r t p show ?thesis by blast
qed

text \<open>
  Without these conditions the round trip fails. With no variable and minterm 0 the
  implicant is \<open>0\<close>, \<^verbatim>\<open>vars[0]\<close> is \<^verbatim>\<open>undefined\<close>, and the text \<^verbatim>\<open>undefined'\<close> reads back
  as a product of the letters \<open>U\<close>, \<open>N\<close>, \<open>D\<close>, ..., which the empty assignment does not
  bind. A lower-case name is rendered as it is and read back in upper case, a name the
  assignment does not bind. A name listed twice gives \<^verbatim>\<open>A'A\<close> for minterm 1, which is
  0 under every assignment.
\<close>

theorem sop_round_trip_counterexample:
  "result (qmSimplify [0] [] [] ''SOP'') = ''undefined'' @ [apostrophe] \<and>
   tokenize (''undefined'' @ [apostrophe]) =
     Inr [VAR ''U'', VAR ''N'', VAR ''D'', VAR ''E'', VAR ''F'', VAR ''I'', VAR ''N'', VAR ''E'',
          VAR ''D'', postfixNOT] \<and>
   toRPN [VAR ''U'', VAR ''N'', VAR ''D'', VAR ''E'', VAR ''F'', VAR ''I'', VAR ''N'', VAR ''E'',
          VAR ''D'', postfixNOT] =
     Inr [VAR ''U'', VAR ''N'', implicitAND, VAR ''D'', implicitAND, VAR ''E'', implicitAND,
          VAR ''F'', implicitAND, VAR ''I'', implicitAND, VAR ''N'', implicitAND, VAR ''E'',
          implicitAND, VAR ''D'', postfixNOT, implicitAND] \<and>
   evalRPN [VAR ''U'', VAR ''N'', implicitAND, VAR ''D'', implicitAND, VAR ''E'', implicitAND,
            VAR ''F'', implicitAND, VAR ''I'', implicitAND, VAR ''N'', implicitAND, VAR ''E'',
            implicitAND, VAR ''D'', postfixNOT, implicitAND] (buildEnv [] 0) =
     Inl (UndefinedVariable ''U'') \<and>
   result (qmSimplify [1] [] [''a''] ''SOP'') = ''a'' \<and>
   tokenize ''a'' = Inr [VAR ''A''] \<and>
   toRPN [VAR ''A''] = Inr [VAR ''A''] \<and>
   evalRPN [VAR ''A''] (buildEnv [''a''] 1) = Inl (UndefinedVariable ''A'') \<and>
   result (qmSimplify [1] [] [''A'', ''A''] ''SOP'') = ''A'A'' \<and>
   tokenize ''A'A'' = Inr [VAR ''A'', postfixNOT, VAR ''A''] \<and>
   toRPN [VAR ''A'', postfixNOT, VAR ''A''] = Inr [VAR ''A'', postfixNOT, VAR ''A'', implicitAND] \<and>
   evalRPN [VAR ''A'', postfixNOT, VAR ''A'', implicitAND] (buildEnv [''A'', ''A''] 1) = Inr 0"
proof -
  have 1: "result (qmSimplify [0] [] [] ''SOP'') = ''undefined'' @ [apostrophe]" by code_simp
  have 2: "tokenize (''undefined'' @ [apostrophe]) =
     Inr [VAR ''U'', VAR ''N'', VAR ''D'', VAR ''E'', VAR ''F'', VAR ''I'', VAR ''N'', VAR ''E'',
          VAR ''D'', postfixNOT]" by code_simp
  have 3: "toRPN [VAR ''U'', VAR ''N'', VAR ''D'', VAR ''E'', VAR ''F'', VAR ''I'', VAR ''N'', VAR ''E'',
          VAR ''D'', postfixNOT] =
     Inr [VAR ''U'', VAR ''N'', implicitAND, VAR ''D'', implicitAND, VAR ''E'', implicitAND,
          VAR ''F'', implicitAND, VAR ''I'', implicitAND, VAR ''N'', implicitAND, VAR ''E'',
          implicitAND, VAR ''D'', postfixNOT, implicitAND]" by code_simp
  have "buildEnv [] 0 ''U'' = None" by (simp add: buildEnv_def)
  then have 4: "evalRPN [VAR ''U'', VAR ''N'', implicitAND, VAR ''D'', implicitAND, VAR ''E'', implicitAND,
            VAR ''F'', implicitAND, VAR ''I'', implicitAND, VAR ''N'', implicitAND, VAR ''E'',
            implicitAND, VAR ''D'', postfixNOT, implicitAND] (buildEnv [] 0) =
     Inl (UndefinedVariable ''U'')" by (simp add: evalRPN_def)
  have 5: "result (qmSimplify [1] [] [''a''] ''SOP'') = ''a''" by code_simp
  have 6: "tokenize ''a'' = Inr [VAR ''A'']" by code_simp
  have 7: "toRPN [VAR ''A''] = Inr [VAR ''A'']" by code_simp
  have "buildEnv [''a''] 1 ''A'' = None" by (simp add: buildEnv_def)
  then have 8: "evalRPN [VAR ''A''] (buildEnv [''a''] 1) = Inl (UndefinedVariable ''A'')"
    by (simp add: evalRPN_def)
  have 9: "result (qmSimplify [1] [] [''A'', ''A''] ''SOP'') = ''A'A''" by code_simp
  have 10: "tokenize ''A'A'' = Inr [VAR ''A'', postfixNOT, VAR ''A'']" by code_simp
  have 11: "toRPN [VAR ''A'', postfixNOT, VAR ''A''] = Inr [VAR ''A'', postfixNOT, VAR ''A'', implicitAND]"
    by code_simp
  have "buildEnv [''A'', ''A''] 1 ''A'' = Some 1"
    by (simp add: buildEnv_def upt_rec and32_def sar32_def toInt32_def)
  then have 12: "evalRPN [VAR ''A'', postfixNOT, VAR ''A'', implicitAND] (buildEnv [''A'', ''A''] 1) = Inr 0"
    by (simp add: evalRPN_def postfixNOT_def implicitAND_def)
  show ?thesis using 1 2 3 4 5 6 7 8 9 10 11 12 by blast
qed

end
